theory Spec2Isabelle
  imports Complex_Main "HOL-Library.Word" "HOL-Library.Signed_Division"
begin

section \<open>The mel filter bank of melFB.cpp\<close>

text \<open>
  The class \<open>MelFb\<close> builds a bank of triangular band filters (constructor and
  \<open>calcMelFB\<close>) and applies it to the frames of a spectrogram (\<open>applyMelFB\<close>).

  Arithmetic. \<open>Fw32f\<close> is a 32-bit float. The embedding has two layers. The first
  computes with exact reals: every \<open>+\<close>, \<open>-\<close>, \<open>*\<close>, \<open>/\<close>, \<open>log\<close> and \<open>pow\<close> of
  the source is the real operation, without rounding, and a float that the source
  compares \<open>within tolerance\<close> is compared exactly. It covers the whole class and
  carries what is said about the weights, about \<open>applyMelFB\<close> and about the two
  frequency mappings, and the runs at concrete configurations, whose boundaries it
  gives in closed form. The second layer is the constructor again with the rounding of
  every operation (the subsection on single precision). It carries what is said in
  general about \<open>fbSize\<close> and about the band boundaries, where a value that is
  rounded to a bin index, or a logarithm that is rounded up to an order, depends on the
  last bit.
  Where the source would produce an infinity or a NaN (\<open>log\<close> at a non-positive
  argument), the functions of the model are total and return some real; the theorems
  that depend on such a value carry the hypothesis that excludes it.
  The \<open>int\<close> variables of the source are 32 bits wide. They are modelled as \<open>int\<close>,
  and the operations that can leave the 32-bit range wrap around as two's complement
  does: \<open>1 << fftOrder\<close> in both layers, \<open>numFilterBanks + 1\<close> in the second. An
  \<open>int\<close> that is converted to a float is exact up to \<open>2 ^ 24\<close> in magnitude. In the
  first layer larger values matter for \<open>fftSize\<close> only, and its conversion
  \<open>(float)fftSize\<close> is modelled with its rounding (\<open>float_of_int\<close>); the cutoffs, the
  band count and the bin indices are converted as they are. The second layer rounds
  every conversion (\<open>of_int_f\<close>).
\<close>

type_synonym Fw32f = real

definition SAMPLE_RATE :: Fw32f where
  "SAMPLE_RATE = 8000"

subsection \<open>Helper functions\<close>

definition linToMel :: "Fw32f \<Rightarrow> Fw32f" where
  "linToMel linFreq = 2595 * (ln (1 + linFreq / 700) / ln 10)"

definition melToLin :: "Fw32f \<Rightarrow> Fw32f" where
  "melToLin melFreq = 700 * (10 powr (melFreq / 2595) - 1)"

text \<open>\<open>round\<close> of the C library: to the nearest integer, halves away from zero.\<close>

definition roundf :: "Fw32f \<Rightarrow> Fw32f" where
  "roundf x = (if 0 \<le> x then of_int \<lfloor>x + 1 / 2\<rfloor> else of_int \<lceil>x - 1 / 2\<rceil>)"

text \<open>\<open>x << n\<close> on a 32-bit \<open>int\<close>. The division of C, which truncates, is \<open>sdiv\<close>.\<close>

definition shl32 :: "int \<Rightarrow> nat \<Rightarrow> int" where
  "shl32 x n = sint (push_bit n (word_of_int x :: 32 word))"

subsection \<open>Errors and object state\<close>

text \<open>
  The constructor throws string literals; the specification calls them \<open>InvalidConfig\<close>.
  \<open>BadArrayNewLength\<close> is what \<open>new T[n]\<close> throws for a negative \<open>n\<close>.
  \<open>UndefinedConversion\<close> is the conversion to \<open>int\<close> of a float that is infinite or
  NaN, and \<open>OutOfBounds\<close> an access outside an allocated array; C++ leaves both undefined.
\<close>

datatype error =
    InvalidConfig string
  | BadArrayNewLength
  | UndefinedConversion
  | OutOfBounds

record MelFb_state =
  numFilterBanks :: int
  fbSize :: int
  hiCut :: int
  loCut :: int
  fLo :: "Fw32f list"
  fHi :: "Fw32f list"
  fbank :: "Fw32f list list"

subsection \<open>calcMelFB: band boundaries\<close>

text \<open>
  The loop of lines 96 to 108 over the band indices. The three arrays \<open>fLo\<close>,
  \<open>fCenter\<close>, \<open>fHi\<close> are passed as a triple; \<open>n\<close> is \<open>numFilterBanks\<close>.
\<close>

fun center_loop ::
  "Fw32f \<Rightarrow> Fw32f \<Rightarrow> nat \<Rightarrow> nat list \<Rightarrow> Fw32f \<Rightarrow>
   Fw32f list \<times> Fw32f list \<times> Fw32f list \<Rightarrow> Fw32f list \<times> Fw32f list \<times> Fw32f list" where
  "center_loop binSize delta n [] melCenter (lo, ce, hi) = (lo, ce, hi)"
| "center_loop binSize delta n (i # is) melCenter (lo, ce, hi) =
     (let melCenter' = melCenter + delta;
          c = roundf (melToLin melCenter' / binSize);
          ce' = ce[i := c];
          hi' = (if 0 < i then hi[i - 1 := c] else hi);
          lo' = (if int i < int n - 1 then lo[i + 1 := c] else lo)
      in center_loop binSize delta n is melCenter' (lo', ce', hi'))"

definition binSize_of :: "int \<Rightarrow> Fw32f" where
  "binSize_of fbsz = SAMPLE_RATE / (real_of_int fbsz * 2 - 1)"

text \<open>
  Lines 77 to 109. The arrays come from \<open>fwsMalloc_32f\<close> uninitialised; each of their
  \<open>n\<close> cells is assigned before the function ends, and the model starts them at 0.
  The result is \<open>(fLo, fCenter, fHi)\<close>.
\<close>

definition calcBounds ::
  "int \<Rightarrow> nat \<Rightarrow> int \<Rightarrow> int \<Rightarrow> Fw32f list \<times> Fw32f list \<times> Fw32f list" where
  "calcBounds fbsz n locut hicut =
     (let binSize = binSize_of fbsz;
          delta = (linToMel (real_of_int hicut) - linToMel (real_of_int locut)) / real (n + 1);
          melCenter = linToMel (real_of_int locut);
          lo0 = (replicate n 0)[0 := roundf (real_of_int locut / binSize)]
      in case center_loop binSize delta n [0..<n] melCenter (lo0, replicate n 0, replicate n 0) of
           (lo, ce, hi) \<Rightarrow> (lo, ce, hi[n - 1 := real_of_int hicut / binSize]))"

definition loBin :: "Fw32f list \<times> Fw32f list \<times> Fw32f list \<Rightarrow> nat \<Rightarrow> Fw32f" where
  "loBin b i = fst b ! i"

definition centerBin :: "Fw32f list \<times> Fw32f list \<times> Fw32f list \<Rightarrow> nat \<Rightarrow> Fw32f" where
  "centerBin b i = fst (snd b) ! i"

definition hiBin :: "Fw32f list \<times> Fw32f list \<times> Fw32f list \<Rightarrow> nat \<Rightarrow> Fw32f" where
  "hiBin b i = snd (snd b) ! i"

subsection \<open>calcMelFB: triangular weights\<close>

text \<open>
  The inner loop of lines 115 to 127 for one band, over the bins \<open>k\<close>, with the running
  value \<open>x\<close>. The source stores \<open>x\<close> and then steps it.
\<close>

fun tri_loop :: "Fw32f \<Rightarrow> Fw32f \<Rightarrow> Fw32f \<Rightarrow> nat list \<Rightarrow> Fw32f \<Rightarrow> Fw32f list" where
  "tri_loop lo ce hi [] x = []"
| "tri_loop lo ce hi (k # ks) x =
     (if lo < real k \<and> real k \<le> ce then x # tri_loop lo ce hi ks (x + 1 / (ce - lo))
      else if ce < real k \<and> real k \<le> hi then x # tri_loop lo ce hi ks (x - 1 / (hi - ce))
      else 0 # tri_loop lo ce hi ks x)"

text \<open>The outer loop of lines 113 to 129: \<open>x\<close> is 0 at the start of every band.\<close>

definition calcWeights ::
  "int \<Rightarrow> nat \<Rightarrow> Fw32f list \<times> Fw32f list \<times> Fw32f list \<Rightarrow> Fw32f list list" where
  "calcWeights fbsz n b =
     map (\<lambda>band. tri_loop (loBin b band) (centerBin b band) (hiBin b band) [0..<nat fbsz] 0)
       [0..<n]"

text \<open>
  \<open>calcMelFB\<close> as a whole. \<open>new Fw32f *[numFilterBanks]\<close> and \<open>new Fw32f[fbSize]\<close>
  throw for a negative length; with no band at all the assignment to \<open>fLo[0]\<close> is
  outside the array.
\<close>

definition calcMelFB :: "MelFb_state \<Rightarrow> error + MelFb_state" where
  "calcMelFB m =
     (if numFilterBanks m < 0 then Inl BadArrayNewLength
      else if 0 < numFilterBanks m \<and> fbSize m < 0 then Inl BadArrayNewLength
      else if numFilterBanks m = 0 then Inl OutOfBounds
      else
        let n = nat (numFilterBanks m);
            b = calcBounds (fbSize m) n (loCut m) (hiCut m)
        in Inr (m\<lparr>fLo := fst b, fHi := snd (snd b), fbank := calcWeights (fbSize m) n b\<rparr>))"

subsection \<open>The constructor\<close>

text \<open>
  The conversion \<open>(float)n\<close> of an \<open>int\<close>. A float has 24 significant bits: a magnitude
  below \<open>2 ^ 24\<close> is kept, a larger one is rounded to the nearest multiple of \<open>2 ^ sh\<close>
  that has 24 bits, a tie going to the even multiple. \<open>ulp_shift\<close> is that \<open>sh\<close>.
\<close>

function ulp_shift :: "nat \<Rightarrow> nat" where
  "ulp_shift a = (if a < 2 ^ 24 then 0 else Suc (ulp_shift (a div 2)))"
  by pat_completeness auto
termination
  by (relation "measure id") auto

declare ulp_shift.simps [simp del]

definition float_of_int :: "int \<Rightarrow> Fw32f" where
  "float_of_int n =
     (let a = nat \<bar>n\<bar>;
          sh = ulp_shift a;
          q = a div 2 ^ sh;
          r = a mod 2 ^ sh;
          q' = (if 2 ^ sh < 2 * r \<or> (2 * r = 2 ^ sh \<and> odd q) then q + 1 else q)
      in real_of_int (sgn n) * real (q' * 2 ^ sh))"

definition fftOrder_of :: "int \<Rightarrow> int" where
  "fftOrder_of fftSize = \<lceil>ln (float_of_int fftSize) / ln 2\<rceil>"

definition fbSize_of :: "int \<Rightarrow> int" where
  "fbSize_of fftSize = shl32 1 (nat (fftOrder_of fftSize)) sdiv 2"

text \<open>
  Lines 37 to 56. For \<open>fftSize \<le> 0\<close> the logarithm is minus infinity or NaN and its
  conversion to \<open>int\<close> is undefined.
\<close>

definition MelFb :: "int \<Rightarrow> int \<Rightarrow> int \<Rightarrow> int \<Rightarrow> error + MelFb_state" where
  "MelFb fftSize numBanks locut hicut =
     (if fftSize \<le> 0 then Inl UndefinedConversion
      else if SAMPLE_RATE < real_of_int hicut then Inl (InvalidConfig ''HiCut Parameter too high'')
      else if numBanks = 0 then Inl (InvalidConfig ''Number of Filterbanks is zero'')
      else calcMelFB
        \<lparr>numFilterBanks = numBanks, fbSize = fbSize_of fftSize, hiCut = hicut, loCut = locut,
         fLo = [], fHi = [], fbank = []\<rparr>)"

subsection \<open>applyMelFB\<close>

text \<open>The part of class \<open>Stft\<close> that \<open>applyMelFB\<close> reads.\<close>

record Stft =
  NoOfWindows :: int
  spectrogramm :: "Fw32f list list"

definition bindE :: "error + 'a \<Rightarrow> ('a \<Rightarrow> error + 'b) \<Rightarrow> error + 'b" where
  "bindE r f = (case r of Inl e \<Rightarrow> Inl e | Inr v \<Rightarrow> f v)"

text \<open>
  The signal primitives of the Framewave library, which is not part of the repository.
  Each works on the first \<open>len\<close> elements of its buffers and rejects \<open>len \<le> 0\<close> with a
  status code, leaving memory as it is; \<open>applyMelFB\<close> ignores the status. An array is a
  list, \<open>&a[off]\<close> is the list with the offset, and an access outside the list is the
  error \<open>OutOfBounds\<close>. \<open>fwsMalloc_32f\<close> returns storage with arbitrary contents, taken
  from \<open>heap\<close>.
\<close>

definition fwsMalloc_32f :: "(nat \<Rightarrow> Fw32f) \<Rightarrow> int \<Rightarrow> Fw32f list" where
  "fwsMalloc_32f heap len = map heap [0..<nat len]"

definition fwsZero_32f :: "Fw32f list \<Rightarrow> int \<Rightarrow> error + Fw32f list" where
  "fwsZero_32f dst len =
     (if len \<le> 0 then Inr dst
      else if int (length dst) < len then Inl OutOfBounds
      else Inr (replicate (nat len) 0 @ drop (nat len) dst))"

definition fwsCopy_32f :: "Fw32f list \<Rightarrow> int \<Rightarrow> Fw32f list \<Rightarrow> int \<Rightarrow> error + Fw32f list" where
  "fwsCopy_32f src off dst len =
     (if len \<le> 0 then Inr dst
      else if off < 0 \<or> int (length src) < off + len \<or> int (length dst) < len then Inl OutOfBounds
      else Inr (take (nat len) (drop (nat off) src) @ drop (nat len) dst))"

definition fwsMul_32f_I :: "Fw32f list \<Rightarrow> Fw32f list \<Rightarrow> int \<Rightarrow> error + Fw32f list" where
  "fwsMul_32f_I src srcDst len =
     (if len \<le> 0 then Inr srcDst
      else if int (length src) < len \<or> int (length srcDst) < len then Inl OutOfBounds
      else Inr (map2 (*) (take (nat len) src) (take (nat len) srcDst) @ drop (nat len) srcDst))"

definition fwsSum_32f :: "Fw32f list \<Rightarrow> int \<Rightarrow> error + Fw32f option" where
  "fwsSum_32f src len =
     (if len \<le> 0 then Inr None
      else if int (length src) < len then Inl OutOfBounds
      else Inr (Some (sum_list (take (nat len) src))))"

text \<open>
  The body of the inner loop, lines 170 to 182, for one window and one band. The state
  is \<open>(filterSparse, frameSparse, output)\<close>.
\<close>

definition apply_band ::
  "MelFb_state \<Rightarrow> Stft \<Rightarrow> int \<Rightarrow> nat \<Rightarrow> nat \<Rightarrow>
   Fw32f list \<times> Fw32f list \<times> Fw32f list list \<Rightarrow>
   error + Fw32f list \<times> Fw32f list \<times> Fw32f list list" where
  "apply_band m stft maxFilterSize window band s =
     (case s of (filterSparse, frameSparse, output) \<Rightarrow>
      let filterSize = \<lceil>fHi m ! band\<rceil> - \<lfloor>fLo m ! band\<rfloor>;
          loF = \<lfloor>fLo m ! band\<rfloor>
      in bindE (fwsZero_32f filterSparse maxFilterSize) (\<lambda>filterSparse.
         bindE (fwsZero_32f frameSparse maxFilterSize) (\<lambda>frameSparse.
         if length (spectrogramm stft) \<le> window then Inl OutOfBounds else
         bindE (fwsCopy_32f (spectrogramm stft ! window) loF frameSparse filterSize) (\<lambda>frameSparse.
         bindE (fwsCopy_32f (fbank m ! band) loF filterSparse filterSize) (\<lambda>filterSparse.
         bindE (fwsMul_32f_I frameSparse filterSparse filterSize) (\<lambda>filterSparse.
         if length output \<le> window then Inl OutOfBounds else
         bindE (fwsSum_32f filterSparse filterSize) (\<lambda>r.
           case r of
             None \<Rightarrow> Inr (filterSparse, frameSparse, output)
           | Some v \<Rightarrow>
               if length (output ! window) \<le> band then Inl OutOfBounds
               else Inr (filterSparse, frameSparse,
                         output[window := (output ! window)[band := v]]))))))))"

fun band_loop ::
  "MelFb_state \<Rightarrow> Stft \<Rightarrow> int \<Rightarrow> nat \<Rightarrow> nat list \<Rightarrow>
   Fw32f list \<times> Fw32f list \<times> Fw32f list list \<Rightarrow>
   error + Fw32f list \<times> Fw32f list \<times> Fw32f list list" where
  "band_loop m stft maxFilterSize window [] s = Inr s"
| "band_loop m stft maxFilterSize window (band # bands) s =
     bindE (apply_band m stft maxFilterSize window band s)
       (band_loop m stft maxFilterSize window bands)"

fun window_loop ::
  "MelFb_state \<Rightarrow> Stft \<Rightarrow> int \<Rightarrow> nat list \<Rightarrow>
   Fw32f list \<times> Fw32f list \<times> Fw32f list list \<Rightarrow>
   error + Fw32f list \<times> Fw32f list \<times> Fw32f list list" where
  "window_loop m stft maxFilterSize [] s = Inr s"
| "window_loop m stft maxFilterSize (window # windows) s =
     bindE (band_loop m stft maxFilterSize window [0..<nat (numFilterBanks m)] s)
       (window_loop m stft maxFilterSize windows)"

text \<open>
  Lines 159 to 186. The member arrays of a constructed object have \<open>numFilterBanks\<close>
  cells; with no band, \<open>fHi[numFilterBanks-1]\<close> is outside the array. The result is the
  contents of \<open>output\<close> after the call.
\<close>

definition applyMelFB ::
  "MelFb_state \<Rightarrow> (nat \<Rightarrow> Fw32f) \<Rightarrow> Fw32f list list \<Rightarrow> Stft \<Rightarrow> error + Fw32f list list" where
  "applyMelFB m heap output stft =
     (if numFilterBanks m \<le> 0 then Inl OutOfBounds
      else
        let last = nat (numFilterBanks m - 1);
            maxFilterSize = \<lceil>fHi m ! last\<rceil> - \<lfloor>fLo m ! last\<rfloor>;
            filterSparse = fwsMalloc_32f heap maxFilterSize;
            frameSparse = fwsMalloc_32f (\<lambda>i. heap (i + nat maxFilterSize)) maxFilterSize
        in case window_loop m stft maxFilterSize [0..<nat (NoOfWindows stft)]
                  (filterSparse, frameSparse, output) of
             Inl e \<Rightarrow> Inl e
           | Inr s \<Rightarrow> Inr (snd (snd s)))"

text \<open>
  The non-sparse way that the source keeps as a comment (lines 139 to 156), which the
  specification compares the sparse one with: the first \<open>fbSize\<close> values of the frame
  times the whole weight row of the band, summed.
\<close>

definition dense_band :: "MelFb_state \<Rightarrow> Fw32f list \<Rightarrow> nat \<Rightarrow> Fw32f" where
  "dense_band m frame band =
     sum_list (map2 (*) (take (nat (fbSize m)) frame) (fbank m ! band))"

subsection \<open>The specification's next power of two\<close>

text \<open>
  The smallest power of two that is at least \<open>n\<close>, by doubling from 1
  (\<open>next_pow2_least\<close> below shows that it is).
\<close>

function next_pow2_from :: "nat \<Rightarrow> nat \<Rightarrow> nat" where
  "next_pow2_from p n = (if p = 0 \<or> n \<le> p then p else next_pow2_from (2 * p) n)"
  by pat_completeness auto
termination
  by (relation "measure (\<lambda>(p, n). n - p)") auto

declare next_pow2_from.simps [simp del]

definition next_pow2 :: "nat \<Rightarrow> nat" where
  "next_pow2 n = next_pow2_from 1 n"

subsection \<open>The specification's band centres\<close>

text \<open>
  The closed form that the specification gives for the centre of band \<open>i\<close>: \<open>i + 1\<close>
  equal steps of \<open>delta\<close> on the mel axis above \<open>loCut\<close>, mapped back and rounded to a bin.
\<close>

definition spec_delta :: "nat \<Rightarrow> int \<Rightarrow> int \<Rightarrow> Fw32f" where
  "spec_delta n locut hicut =
     (linToMel (real_of_int hicut) - linToMel (real_of_int locut)) / real (n + 1)"

definition spec_center :: "int \<Rightarrow> nat \<Rightarrow> int \<Rightarrow> int \<Rightarrow> nat \<Rightarrow> Fw32f" where
  "spec_center fbsz n locut hicut i =
     roundf (melToLin (linToMel (real_of_int locut) + real (i + 1) * spec_delta n locut hicut)
             / binSize_of fbsz)"

subsection \<open>What one pass of the inner loop stores\<close>

text \<open>
  The inner loop of \<open>applyMelFB\<close> in closed form, used to reason about it (\<open>apply_band\<close>
  is shown below to compute exactly this). \<open>sparse_size\<close> and \<open>sparse_lo\<close> are
  \<open>filterSize\<close> and \<open>loF\<close>. \<open>sparse_in_range\<close> says that the two copies of
  \<open>filterSize\<close> values stay inside the frame, the weight row and the scratch buffers.
  \<open>sparse_value\<close> is the value summed for \<open>output[window][band]\<close>: the products of the
  frame and the weight row over the bins from \<open>loF\<close> up to \<open>loF + filterSize - 1\<close>; there
  is none when \<open>filterSize \<le> 0\<close>, since the primitives then leave \<open>output\<close> untouched.
  \<open>out_band\<close>, \<open>out_bands\<close> and \<open>out_windows\<close> follow the loops on \<open>output\<close> alone.
\<close>

definition sparse_size :: "MelFb_state \<Rightarrow> nat \<Rightarrow> int" where
  "sparse_size m band = \<lceil>fHi m ! band\<rceil> - \<lfloor>fLo m ! band\<rfloor>"

definition sparse_lo :: "MelFb_state \<Rightarrow> nat \<Rightarrow> int" where
  "sparse_lo m band = \<lfloor>fLo m ! band\<rfloor>"

definition sparse_in_range :: "MelFb_state \<Rightarrow> Stft \<Rightarrow> int \<Rightarrow> nat \<Rightarrow> nat \<Rightarrow> bool" where
  "sparse_in_range m stft maxFilterSize window band =
     (window < length (spectrogramm stft) \<and>
      (0 < sparse_size m band \<longrightarrow>
         0 \<le> sparse_lo m band \<and>
         sparse_lo m band + sparse_size m band \<le> int (length (spectrogramm stft ! window)) \<and>
         sparse_lo m band + sparse_size m band \<le> int (length (fbank m ! band)) \<and>
         sparse_size m band \<le> maxFilterSize))"

definition sparse_value :: "MelFb_state \<Rightarrow> Stft \<Rightarrow> nat \<Rightarrow> nat \<Rightarrow> Fw32f option" where
  "sparse_value m stft window band =
     (if sparse_size m band \<le> 0 then None
      else Some (sum_list (map2 (*)
             (take (nat (sparse_size m band)) (drop (nat (sparse_lo m band)) (spectrogramm stft ! window)))
             (take (nat (sparse_size m band)) (drop (nat (sparse_lo m band)) (fbank m ! band))))))"

fun write_cell :: "Fw32f list list \<Rightarrow> nat \<Rightarrow> nat \<Rightarrow> Fw32f option \<Rightarrow> Fw32f list list" where
  "write_cell output window band None = output"
| "write_cell output window band (Some v) = output[window := (output ! window)[band := v]]"

definition out_band ::
  "MelFb_state \<Rightarrow> Stft \<Rightarrow> int \<Rightarrow> nat \<Rightarrow> nat \<Rightarrow> Fw32f list list \<Rightarrow> error + Fw32f list list" where
  "out_band m stft maxFilterSize window band output =
     (if sparse_in_range m stft maxFilterSize window band \<and> window < length output \<and>
         (sparse_value m stft window band \<noteq> None \<longrightarrow> band < length (output ! window))
      then Inr (write_cell output window band (sparse_value m stft window band))
      else Inl OutOfBounds)"

fun out_bands ::
  "MelFb_state \<Rightarrow> Stft \<Rightarrow> int \<Rightarrow> nat \<Rightarrow> nat list \<Rightarrow> Fw32f list list \<Rightarrow> error + Fw32f list list" where
  "out_bands m stft maxFilterSize window [] output = Inr output"
| "out_bands m stft maxFilterSize window (band # bands) output =
     bindE (out_band m stft maxFilterSize window band output)
       (out_bands m stft maxFilterSize window bands)"

fun out_windows ::
  "MelFb_state \<Rightarrow> Stft \<Rightarrow> int \<Rightarrow> nat list \<Rightarrow> Fw32f list list \<Rightarrow> error + Fw32f list list" where
  "out_windows m stft maxFilterSize [] output = Inr output"
| "out_windows m stft maxFilterSize (window # windows) output =
     bindE (out_bands m stft maxFilterSize window [0..<nat (numFilterBanks m)] output)
       (out_windows m stft maxFilterSize windows)"

definition holds_value :: "MelFb_state \<Rightarrow> Stft \<Rightarrow> Fw32f list list \<Rightarrow> nat \<Rightarrow> nat \<Rightarrow> bool" where
  "holds_value m stft output window band =
     (case sparse_value m stft window band of None \<Rightarrow> True | Some v \<Rightarrow> output ! window ! band = v)"


subsection \<open>The weight row in closed form\<close>

text \<open>
  For a band with integer bounds \<open>l < c\<close> and \<open>c \<le> hi\<close>: \<open>tri_acc\<close> is the running
  value \<open>x\<close> when the loop reaches bin \<open>j\<close>, and \<open>tri_weight\<close> the weight stored at bin
  \<open>k\<close> (\<open>tri_loop_closed_form\<close> below).
\<close>

definition tri_acc :: "nat \<Rightarrow> nat \<Rightarrow> Fw32f \<Rightarrow> nat \<Rightarrow> Fw32f" where
  "tri_acc l c hi j =
     (if j \<le> l + 1 then 0
      else if j \<le> c + 1 then real (j - l - 1) / real (c - l)
      else 1 - real (j - c - 1) / (hi - real c))"

definition tri_weight :: "nat \<Rightarrow> nat \<Rightarrow> Fw32f \<Rightarrow> nat \<Rightarrow> Fw32f" where
  "tri_weight l c hi k =
     (if l < k \<and> k \<le> c then real (k - l - 1) / real (c - l)
      else if c < k \<and> real k \<le> hi then 1 - real (k - c - 1) / (hi - real c)
      else 0)"

subsection \<open>The constructor in single precision\<close>

text \<open>
  The constructor once more, with the rounding of its arithmetic. A finite float is a
  real with 24 significant bits, a finite double one with 53. \<open>rnd p x\<close> is the value
  with \<open>p\<close> significant bits that is nearest to \<open>x\<close>, a tie going to the one whose last
  bit is 0: the default rounding of IEEE 754. \<open>round_even\<close> is the integer nearest to
  \<open>y\<close>, a tie going to the even one. Each \<open>+\<close>, \<open>-\<close>, \<open>*\<close> and \<open>/\<close> of the source is
  the exact operation followed by \<open>rnd\<close> at the precision of its operand type. The
  exponent range is not modelled: with both cutoffs above -700 Hz every value that the
  constructor computes for the band boundaries is far from overflow and from underflow.
\<close>

definition round_even :: "real \<Rightarrow> int" where
  "round_even y =
     (let f = \<lfloor>y\<rfloor>
      in if y - of_int f < 1 / 2 then f
         else if 1 / 2 < y - of_int f then f + 1
         else if even f then f else f + 1)"

definition rnd :: "nat \<Rightarrow> real \<Rightarrow> real" where
  "rnd p x =
     (if x = 0 then 0
      else let u = 2 powr (of_int \<lfloor>log 2 \<bar>x\<bar>\<rfloor> - real (p - 1))
           in sgn x * of_int (round_even (\<bar>x\<bar> / u)) * u)"

text \<open>
  The logarithm and the power come from the C library, which is not part of the
  repository, and the macros of lines 30 to 34 make two builds of the source: with
  \<open>__APPLE__\<close> the calls are \<open>logf\<close> and \<open>powf\<close> on floats; otherwise they are \<open>log\<close>
  and \<open>pow\<close> on doubles, and the operations on their results are double operations.
  The library is a parameter of the model: \<open>c_log\<close> and \<open>c_pow\<close> are its two functions
  as the build calls them, \<open>double_libm\<close> tells the build, and \<open>lprec\<close> is the precision
  of the operations on their results. \<open>roundf\<close> and \<open>ceil\<close> return whole numbers and
  are exact in both builds.
\<close>

record libm =
  double_libm :: bool
  c_log :: "real \<Rightarrow> real"
  c_pow :: "real \<Rightarrow> real \<Rightarrow> real"

definition lprec :: "libm \<Rightarrow> nat" where
  "lprec b = (if double_libm b then 53 else 24)"

text \<open>
  The conversion of an \<open>int\<close> to float, and \<open>a + b\<close> on two 32-bit \<open>int\<close>s.
\<close>

definition of_int_f :: "int \<Rightarrow> Fw32f" where
  "of_int_f n = rnd 24 (real_of_int n)"

definition add32 :: "int \<Rightarrow> int \<Rightarrow> int" where
  "add32 a b = sint (word_of_int (a + b) :: 32 word)"

text \<open>
  Lines 196 to 204. \<open>1.0f + linFreq / 700.0f\<close> and \<open>melFreq / 2595.0f\<close> are float
  operations in both builds; the value returned is converted to \<open>Fw32f\<close>.
\<close>

definition linToMel_f :: "libm \<Rightarrow> Fw32f \<Rightarrow> Fw32f" where
  "linToMel_f b linFreq =
     rnd 24 (rnd (lprec b) (2595 * rnd (lprec b)
       (c_log b (rnd 24 (1 + rnd 24 (linFreq / 700))) / c_log b 10)))"

definition melToLin_f :: "libm \<Rightarrow> Fw32f \<Rightarrow> Fw32f" where
  "melToLin_f b melFreq =
     rnd 24 (rnd (lprec b) (700 * rnd (lprec b)
       (c_pow b 10 (rnd 24 (melFreq / 2595)) - 1)))"

text \<open>Line 77, \<open>SAMPLE_RATE/(fbSize*2.0f-1)\<close>, and line 85, \<open>delta\<close>.\<close>

definition binSize_f :: "int \<Rightarrow> Fw32f" where
  "binSize_f fbsz = rnd 24 (SAMPLE_RATE / rnd 24 (rnd 24 (of_int_f fbsz * 2) - 1))"

definition delta_f :: "libm \<Rightarrow> int \<Rightarrow> int \<Rightarrow> int \<Rightarrow> Fw32f" where
  "delta_f b numBanks locut hicut =
     rnd 24 (rnd 24 (linToMel_f b (of_int_f hicut) - linToMel_f b (of_int_f locut))
             / of_int_f (add32 numBanks 1))"

text \<open>The loop of lines 96 to 108, and lines 77 to 109 as a whole.\<close>

fun center_loop_f ::
  "libm \<Rightarrow> Fw32f \<Rightarrow> Fw32f \<Rightarrow> nat \<Rightarrow> nat list \<Rightarrow> Fw32f \<Rightarrow>
   Fw32f list \<times> Fw32f list \<times> Fw32f list \<Rightarrow> Fw32f list \<times> Fw32f list \<times> Fw32f list" where
  "center_loop_f b binSize delta n [] melCenter (lo, ce, hi) = (lo, ce, hi)"
| "center_loop_f b binSize delta n (i # is) melCenter (lo, ce, hi) =
     (let melCenter' = rnd 24 (melCenter + delta);
          c = roundf (rnd 24 (melToLin_f b melCenter' / binSize));
          ce' = ce[i := c];
          hi' = (if 0 < i then hi[i - 1 := c] else hi);
          lo' = (if int i < int n - 1 then lo[i + 1 := c] else lo)
      in center_loop_f b binSize delta n is melCenter' (lo', ce', hi'))"

definition calcBounds_f ::
  "libm \<Rightarrow> int \<Rightarrow> int \<Rightarrow> int \<Rightarrow> int \<Rightarrow> Fw32f list \<times> Fw32f list \<times> Fw32f list" where
  "calcBounds_f b fbsz numBanks locut hicut =
     (let n = nat numBanks;
          binSize = binSize_f fbsz;
          delta = delta_f b numBanks locut hicut;
          melCenter = linToMel_f b (of_int_f locut);
          lo0 = (replicate n 0)[0 := roundf (rnd 24 (of_int_f locut / binSize))]
      in case center_loop_f b binSize delta n [0..<n] melCenter (lo0, replicate n 0, replicate n 0) of
           (lo, ce, hi) \<Rightarrow> (lo, ce, hi[n - 1 := rnd 24 (of_int_f hicut / binSize)]))"

text \<open>
  The weight loop of lines 112 to 129: the bin index \<open>k\<close> is converted to float for the
  comparisons, and \<open>1/(fCenter[band] - fLo[band])\<close> is a float division.
\<close>

fun tri_loop_f :: "Fw32f \<Rightarrow> Fw32f \<Rightarrow> Fw32f \<Rightarrow> nat list \<Rightarrow> Fw32f \<Rightarrow> Fw32f list" where
  "tri_loop_f lo ce hi [] x = []"
| "tri_loop_f lo ce hi (k # ks) x =
     (if lo < of_int_f (int k) \<and> of_int_f (int k) \<le> ce
      then x # tri_loop_f lo ce hi ks (rnd 24 (x + rnd 24 (1 / rnd 24 (ce - lo))))
      else if ce < of_int_f (int k) \<and> of_int_f (int k) \<le> hi
      then x # tri_loop_f lo ce hi ks (rnd 24 (x - rnd 24 (1 / rnd 24 (hi - ce))))
      else 0 # tri_loop_f lo ce hi ks x)"

definition calcWeights_f ::
  "int \<Rightarrow> nat \<Rightarrow> Fw32f list \<times> Fw32f list \<times> Fw32f list \<Rightarrow> Fw32f list list" where
  "calcWeights_f fbsz n bd =
     map (\<lambda>band. tri_loop_f (loBin bd band) (centerBin bd band) (hiBin bd band) [0..<nat fbsz] 0)
       [0..<n]"

definition calcMelFB_f :: "libm \<Rightarrow> MelFb_state \<Rightarrow> error + MelFb_state" where
  "calcMelFB_f b m =
     (if numFilterBanks m < 0 then Inl BadArrayNewLength
      else if 0 < numFilterBanks m \<and> fbSize m < 0 then Inl BadArrayNewLength
      else if numFilterBanks m = 0 then Inl OutOfBounds
      else
        let bd = calcBounds_f b (fbSize m) (numFilterBanks m) (loCut m) (hiCut m)
        in Inr (m\<lparr>fLo := fst bd, fHi := snd (snd bd),
                  fbank := calcWeights_f (fbSize m) (nat (numFilterBanks m)) bd\<rparr>))"

text \<open>
  Lines 37 to 56. The quotient of the two logarithms of line 42 is a float division with
  \<open>logf\<close> and a double division with \<open>log\<close>.
\<close>

definition fftOrder_f :: "libm \<Rightarrow> int \<Rightarrow> int" where
  "fftOrder_f b fftSize = \<lceil>rnd (lprec b) (c_log b (of_int_f fftSize) / c_log b 2)\<rceil>"

definition fbSize_f :: "libm \<Rightarrow> int \<Rightarrow> int" where
  "fbSize_f b fftSize = shl32 1 (nat (fftOrder_f b fftSize)) sdiv 2"

definition MelFb_f :: "libm \<Rightarrow> int \<Rightarrow> int \<Rightarrow> int \<Rightarrow> int \<Rightarrow> error + MelFb_state" where
  "MelFb_f b fftSize numBanks locut hicut =
     (if fftSize \<le> 0 then Inl UndefinedConversion
      else if SAMPLE_RATE < of_int_f hicut then Inl (InvalidConfig ''HiCut Parameter too high'')
      else if numBanks = 0 then Inl (InvalidConfig ''Number of Filterbanks is zero'')
      else calcMelFB_f b
        \<lparr>numFilterBanks = numBanks, fbSize = fbSize_f b fftSize, hiCut = hicut, loCut = locut,
         fLo = [], fHi = [], fbank = []\<rparr>)"

text \<open>
  A double build whose library returns the exact logarithm and the exact power, to run
  the model on.
\<close>

definition ideal_libm :: libm where
  "ideal_libm = \<lparr>double_libm = True, c_log = ln, c_pow = (powr)\<rparr>"

text \<open>
  The running mel value of the loop: \<open>running_mel delta m k\<close> is \<open>melCenter\<close> after \<open>k\<close>
  passes that started from \<open>m\<close>, each pass adding \<open>delta\<close> and rounding the sum.
  \<open>center_f\<close> is the centre that pass \<open>i\<close> stores (\<open>calcBounds_f_nth\<close> below).
\<close>

primrec running_mel :: "Fw32f \<Rightarrow> Fw32f \<Rightarrow> nat \<Rightarrow> Fw32f" where
  "running_mel delta m 0 = m"
| "running_mel delta m (Suc k) = rnd 24 (running_mel delta m k + delta)"

definition center_f :: "libm \<Rightarrow> int \<Rightarrow> int \<Rightarrow> int \<Rightarrow> int \<Rightarrow> nat \<Rightarrow> Fw32f" where
  "center_f b fbsz numBanks locut hicut i =
     roundf (rnd 24 (melToLin_f b
        (running_mel (delta_f b numBanks locut hicut) (linToMel_f b (of_int_f locut)) (i + 1))
        / binSize_f fbsz))"


section \<open>Properties\<close>

subsection \<open>The frequency mapping\<close>

lemma melToLin_linToMel: "- 700 < f \<Longrightarrow> melToLin (linToMel f) = f"
proof -
  assume f: "- 700 < f"
  then have pos: "0 < 1 + f / 700" by simp
  have "10 powr (ln (1 + f / 700) / ln 10) = 1 + f / 700"
    using powr_log_cancel [of 10 "1 + f / 700"] pos by (simp add: log_def)
  then show ?thesis by (simp add: melToLin_def linToMel_def)
qed

text \<open>
  C9. The frequency-mapping helpers are mutual inverses: for every \<open>f \<ge> 0\<close>,
  \<open>melToLin (linToMel f)\<close> is \<open>f\<close>, where \<open>linToMel f\<close> is
  \<open>2595 * log10 (1 + f / 700)\<close> and \<open>melToLin m\<close> is \<open>700 * (10 ^ (m / 2595) - 1)\<close>.
  In the exact arithmetic of the model the round trip returns \<open>f\<close> itself.
\<close>

theorem C9_mel_roundtrip:
  "0 \<le> f \<Longrightarrow>
     linToMel f = 2595 * log 10 (1 + f / 700) \<and>
     melToLin m = 700 * (10 powr (m / 2595) - 1) \<and>
     melToLin (linToMel f) = f"
  using melToLin_linToMel [of f] by (simp add: linToMel_def melToLin_def log_def)

theorem C9_mel_roundtrip_witness:
  "(0::real) \<le> 2100 \<and> linToMel 2100 = 2595 * log 10 4 \<and> melToLin (linToMel 2100) = 2100"
  using C9_mel_roundtrip [of 2100] by simp

subsection \<open>The size of the filter bank\<close>

lemma ulp_shift_small: "a < 2 ^ 24 \<Longrightarrow> ulp_shift a = 0"
  by (simp add: ulp_shift.simps)

lemma float_of_int_small: "\<bar>n\<bar> < 2 ^ 24 \<Longrightarrow> float_of_int n = real_of_int n"
proof -
  assume "\<bar>n\<bar> < 2 ^ 24"
  then have "ulp_shift (nat \<bar>n\<bar>) = 0" by (intro ulp_shift_small) simp
  then have "float_of_int n = real_of_int (sgn n) * real (nat \<bar>n\<bar>)"
    by (simp add: float_of_int_def)
  also have "\<dots> = real_of_int (sgn n * \<bar>n\<bar>)" by simp
  also have "sgn n * \<bar>n\<bar> = n" by (simp add: sgn_if)
  finally show ?thesis .
qed

lemma float_of_int_2_24: "float_of_int 16777216 = 16777216"
proof -
  have "ulp_shift 16777216 = 1" by (simp add: ulp_shift.simps)
  then show ?thesis by (simp add: float_of_int_def)
qed

lemma float_of_int_exact: "0 < n \<Longrightarrow> n \<le> 2 ^ 24 \<Longrightarrow> float_of_int n = real_of_int n"
  using float_of_int_small [of n] float_of_int_2_24 by (cases "n = 2 ^ 24") auto

lemma ulp_shift_le: "a < 2 ^ (24 + k) \<Longrightarrow> ulp_shift a \<le> k"
proof (induction k arbitrary: a)
  case 0
  then show ?case by (simp add: ulp_shift_small)
next
  case (Suc k)
  show ?case
  proof (cases "a < 2 ^ 24")
    case True
    then show ?thesis by (simp add: ulp_shift_small)
  next
    case False
    have "a < 2 ^ (24 + k) * 2" using Suc.prems by (simp add: power_add)
    then have "a div 2 < 2 ^ (24 + k)" by (rule less_mult_imp_div_less)
    then have "ulp_shift (a div 2) \<le> k" by (rule Suc.IH)
    then show ?thesis using False by (subst ulp_shift.simps) simp
  qed
qed

text \<open>
  A large \<open>int\<close> up to \<open>2 ^ 30\<close> is converted to a whole number between \<open>2 ^ 24\<close> and
  \<open>2 ^ 30\<close>.
\<close>

lemma float_of_int_large:
  assumes lo: "2 ^ 24 \<le> n" and hi: "n \<le> 2 ^ 30"
  shows "\<exists>F::nat. float_of_int n = real F \<and> 2 ^ 24 \<le> F \<and> F \<le> 2 ^ 30"
proof -
  define a where "a = nat \<bar>n\<bar>"
  define sh where "sh = ulp_shift a"
  define q where "q = a div 2 ^ sh"
  define r where "r = a mod 2 ^ sh"
  define q' where "q' = (if 2 ^ sh < 2 * r \<or> (2 * r = 2 ^ sh \<and> odd q) then q + 1 else q)"
  have a24: "2 ^ 24 \<le> a" and a30: "a \<le> 2 ^ 30"
    using lo hi by (simp_all add: a_def nat_le_iff le_nat_iff)
  have "a < 2 ^ (24 + 7)" using a30 by simp
  then have sh7: "sh \<le> 7" unfolding sh_def by (rule ulp_shift_le)
  have pos: "0 < n" using lo by (smt (verit) zero_less_power)
  have f: "float_of_int n = real (q' * 2 ^ sh)"
    using pos by (simp add: float_of_int_def Let_def a_def sh_def q_def r_def q'_def)
  have aq: "a = q * 2 ^ sh + r"
    unfolding q_def r_def by (rule div_mult_mod_eq [symmetric])
  have e24: "(2::nat) ^ 24 = 2 ^ (24 - sh) * 2 ^ sh"
    using sh7 by (simp flip: power_add)
  have e30: "(2::nat) ^ 30 = 2 ^ (30 - sh) * 2 ^ sh"
    using sh7 by (simp flip: power_add)
  have "2 ^ (24 - sh) * 2 ^ sh div 2 ^ sh \<le> a div 2 ^ sh"
    using a24 unfolding e24 [symmetric] by (rule div_le_mono)
  then have qlo: "2 ^ (24 - sh) \<le> q" by (simp add: q_def)
  have "a div 2 ^ sh \<le> 2 ^ (30 - sh) * 2 ^ sh div 2 ^ sh"
    using a30 unfolding e30 [symmetric] by (rule div_le_mono)
  then have qhi: "q \<le> 2 ^ (30 - sh)" by (simp add: q_def)
  have "q \<le> q'" by (simp add: q'_def)
  then have "2 ^ (24 - sh) * 2 ^ sh \<le> q' * 2 ^ sh"
    using qlo by (intro mult_right_mono) auto
  then have lower: "2 ^ 24 \<le> q' * 2 ^ sh" by (simp only: e24 [symmetric])
  have "q' \<le> 2 ^ (30 - sh)"
  proof (cases "q = 2 ^ (30 - sh)")
    case True
    then have "a = 2 ^ 30 + r" using aq e30 by simp
    then have "r = 0" using a30 by simp
    then show ?thesis using True by (simp add: q'_def)
  next
    case False
    then have "q + 1 \<le> 2 ^ (30 - sh)" using qhi by simp
    then show ?thesis by (simp add: q'_def)
  qed
  then have "q' * 2 ^ sh \<le> 2 ^ (30 - sh) * 2 ^ sh"
    by (intro mult_right_mono) auto
  then have upper: "q' * 2 ^ sh \<le> 2 ^ 30" by (simp only: e30 [symmetric])
  show ?thesis using f lower upper by blast
qed

lemma float_of_int_nat:
  assumes "0 < n" "n \<le> 2 ^ 30"
  shows "\<exists>F::nat. float_of_int n = real F \<and> 1 \<le> F \<and> F \<le> 2 ^ 30 \<and> (2 \<le> n \<longrightarrow> 2 \<le> F)"
proof (cases "n < 2 ^ 24")
  case True
  then have "float_of_int n = real (nat n)"
    using assms(1) by (simp add: float_of_int_small)
  moreover have "1 \<le> nat n" "nat n \<le> 2 ^ 30" "2 \<le> n \<longrightarrow> 2 \<le> nat n"
    using assms by auto
  ultimately show ?thesis by blast
next
  case False
  then have "2 ^ 24 \<le> n" by simp
  from float_of_int_large [OF this assms(2)] obtain F :: nat where
    F: "float_of_int n = real F" "2 ^ 24 \<le> F" "F \<le> 2 ^ 30" by blast
  then have "1 \<le> F" "2 \<le> F" by simp_all
  then show ?thesis using F by blast
qed

lemma ceiling_log2_range:
  fixes x :: real
  assumes "2 ^ k < x" "x \<le> 2 ^ Suc k"
  shows "\<lceil>ln x / ln 2\<rceil> = int (Suc k)"
proof -
  have xpos: "0 < x"
    using assms(1) by (smt (verit) zero_less_power)
  have l2: "0 < ln (2::real)" by simp
  have lo: "ln ((2::real) ^ k) < ln x"
    using assms(1) xpos by (subst ln_less_cancel_iff) auto
  have hi: "ln x \<le> ln ((2::real) ^ Suc k)"
    using assms(2) xpos by (subst ln_le_cancel_iff) auto
  have a: "real k < ln x / ln 2"
    using lo l2 by (simp add: ln_realpow pos_less_divide_eq)
  have b: "ln x / ln 2 \<le> real (Suc k)"
    using hi l2 unfolding ln_realpow by (simp add: pos_divide_le_eq)
  show ?thesis
    by (rule ceiling_unique) (use a b in auto)
qed

lemma fftOrder_of_pow2_range:
  assumes "2 ^ k < n" "n \<le> 2 ^ Suc k" "n \<le> 2 ^ 24"
  shows "fftOrder_of n = int (Suc k)"
proof -
  have r1: "(2::real) ^ k < real_of_int n" using assms(1)
    by (metis of_int_less_iff of_int_numeral of_int_power)
  have r2: "real_of_int n \<le> (2::real) ^ Suc k" using assms(2)
    by (metis of_int_le_iff of_int_numeral of_int_power)
  have "0 < n" using assms(1) by (smt (verit) zero_less_power)
  then have "float_of_int n = real_of_int n" using assms(3) by (rule float_of_int_exact)
  then show ?thesis
    unfolding fftOrder_of_def using ceiling_log2_range [OF r1 r2] by simp
qed

lemma fftOrder_of_1: "fftOrder_of 1 = 0"
  by (simp add: fftOrder_of_def float_of_int_small)

lemma shl32_1: 
  assumes "k < 31" shows "shl32 1 k = 2 ^ k"
proof -
  have "(2::int) ^ k < 2 ^ 31" using assms by (intro power_strict_increasing) auto
  then have "signed_take_bit 31 ((2::int) ^ k) = 2 ^ k"
    by (intro signed_take_bit_int_eq_self) (auto intro: order_trans [of _ 0])
  moreover have "sint (word_of_int (2 ^ k) :: 32 word) = signed_take_bit 31 ((2::int) ^ k)"
    by (simp only: sint_sbintrunc') simp
  moreover have "push_bit k (word_of_int 1 :: 32 word) = word_of_int (2 ^ k)"
    by (simp add: push_bit_eq_mult)
  ultimately show ?thesis
    unfolding shl32_def by (simp only: )
qed

lemma shl32_1_31: "shl32 1 31 = - (2 ^ 31)"
  unfolding shl32_def by simp

lemma next_pow2_from_step:
  "j \<le> k \<Longrightarrow> 2 ^ k < n \<Longrightarrow> n \<le> 2 ^ Suc k \<Longrightarrow> next_pow2_from (2 ^ j) n = 2 ^ Suc k"
proof (induction "k - j" arbitrary: j)
  case 0
  then have jk: "j = k" by simp
  have "next_pow2_from (2 ^ k) n = next_pow2_from (2 * 2 ^ k) n"
    using 0 by (subst next_pow2_from.simps) simp
  also have "\<dots> = 2 ^ Suc k"
    using 0 by (subst next_pow2_from.simps) simp
  finally show ?case using jk by simp
next
  case (Suc d)
  then have lt: "j < k" by simp
  then have "(2::nat) ^ j < 2 ^ k" by simp
  then have "\<not> n \<le> 2 ^ j" using Suc.prems by linarith
  then have "next_pow2_from (2 ^ j) n = next_pow2_from (2 ^ Suc j) n"
    by (subst next_pow2_from.simps) simp
  also have "\<dots> = 2 ^ Suc k"
    using Suc lt by (intro Suc.hyps(1)) auto
  finally show ?case .
qed

lemma next_pow2_range: "2 ^ k < n \<Longrightarrow> n \<le> 2 ^ Suc k \<Longrightarrow> next_pow2 n = 2 ^ Suc k"
  using next_pow2_from_step [of 0 k n] by (simp add: next_pow2_def)

lemma next_pow2_le1: "n \<le> 1 \<Longrightarrow> next_pow2 n = 1"
  by (simp add: next_pow2_def next_pow2_from.simps)

lemma ex_pow2_range: "1 < (n::nat) \<Longrightarrow> \<exists>k. 2 ^ k < n \<and> n \<le> 2 ^ Suc k"
proof (induction n rule: less_induct)
  case (less n)
  show ?case
  proof (cases "n \<le> 2")
    case True
    with less.prems have "2 ^ 0 < n \<and> n \<le> 2 ^ Suc 0" by simp
    then show ?thesis by blast
  next
    case False
    define h where "h = (n + 1) div 2"
    have "1 < h" "h < n" using False by (auto simp: h_def)
    from less.IH [OF this(2) this(1)] obtain k where k: "2 ^ k < h" "h \<le> 2 ^ Suc k" by blast
    have "2 ^ Suc k < n" using k(1) unfolding h_def by (simp; linarith)
    moreover have "n \<le> 2 ^ Suc (Suc k)" using k(2) unfolding h_def by (simp; linarith)
    ultimately show ?thesis by blast
  qed
qed

lemma next_pow2_least:
  "(\<exists>k. next_pow2 n = 2 ^ k) \<and> n \<le> next_pow2 n \<and> (\<forall>j. n \<le> 2 ^ j \<longrightarrow> next_pow2 n \<le> 2 ^ j)"
proof (cases "n \<le> 1")
  case True
  then show ?thesis
    by (auto simp: next_pow2_le1 intro: exI [of _ 0])
next
  case False
  then obtain k where k: "2 ^ k < n" "n \<le> 2 ^ Suc k" using ex_pow2_range [of n] by auto
  have np: "next_pow2 n = 2 ^ Suc k" using k by (rule next_pow2_range)
  have "2 ^ Suc k \<le> (2::nat) ^ j" if "n \<le> 2 ^ j" for j
  proof -
    have "(2::nat) ^ k < 2 ^ j" using k(1) that by linarith
    then have "k < j" by (simp add: power_strict_increasing_iff)
    then show ?thesis by (intro power_increasing) auto
  qed
  then show ?thesis using np k by (auto intro: exI [of _ "Suc k"])
qed

lemma fbSize_of_order:
  assumes "fftOrder_of n = int k" "k < 31"
  shows "fbSize_of n = 2 ^ k div 2"
proof -
  have "shl32 1 k = 2 ^ k" using assms(2) by (rule shl32_1)
  then show ?thesis
    using assms(1) by (simp add: fbSize_of_def signed_divide_int_def)
qed

lemma fbSize_of_range:
  assumes "2 ^ k < n" "n \<le> 2 ^ Suc k" "n \<le> 2 ^ 24"
  shows "fbSize_of n = 2 ^ k"
proof -
  have "k < 24"
  proof (rule ccontr)
    assume "\<not> k < 24"
    then have "(2::int) ^ 24 \<le> 2 ^ k" by (intro power_increasing) auto
    then show False using assms(1,3) by linarith
  qed
  then have "Suc k < 31" by simp
  from fbSize_of_order [OF fftOrder_of_pow2_range [OF assms] this] show ?thesis by simp
qed

lemma fbSize_of_1: "fbSize_of 1 = 0"
  using fbSize_of_order [of 1 0] by (simp add: fftOrder_of_1)

lemma next_pow2_16777217: "next_pow2 16777217 = 33554432"
  using next_pow2_range [of 24 16777217] by simp

text \<open>
  The largest \<open>int\<close> is converted to \<open>2 ^ 31\<close>; its order is 31, \<open>1 << 31\<close> wraps to
  the least \<open>int\<close>, and the allocation of the weight rows throws.
\<close>

lemma float_of_int_int_max: "float_of_int 2147483647 = 2147483648"
proof -
  have "ulp_shift 2147483647 = 7" by (simp add: ulp_shift.simps)
  then show ?thesis by (simp add: float_of_int_def)
qed

lemma fbSize_of_int_max: "fbSize_of 2147483647 = - 1073741824"
proof -
  have "fftOrder_of 2147483647 = int (Suc 30)"
    unfolding fftOrder_of_def float_of_int_int_max
    by (rule ceiling_log2_range) simp_all
  then show ?thesis
    by (simp add: fbSize_of_def shl32_1_31 signed_divide_int_def)
qed

lemma MelFb_int_max: "MelFb 2147483647 2 4 1676 = Inl BadArrayNewLength"
  by (simp add: MelFb_def calcMelFB_def fbSize_of_int_max SAMPLE_RATE_def)

text \<open>
  From \<open>1\<close> to \<open>2 ^ 30\<close> the order is at most 30 and the shift stays inside the \<open>int\<close>.
\<close>

lemma fbSize_of_bounds:
  assumes "0 < fftSize" "fftSize \<le> 2 ^ 30"
  shows "0 \<le> fbSize_of fftSize" and "2 \<le> fftSize \<Longrightarrow> 1 \<le> fbSize_of fftSize"
proof -
  from float_of_int_nat [OF assms] obtain F :: nat where
    F: "float_of_int fftSize = real F" "1 \<le> F" "F \<le> 2 ^ 30" "2 \<le> fftSize \<longrightarrow> 2 \<le> F"
    by blast
  have "0 \<le> fbSize_of fftSize \<and> (2 \<le> fftSize \<longrightarrow> 1 \<le> fbSize_of fftSize)"
  proof (cases "F = 1")
    case True
    then have "fftOrder_of fftSize = int 0" by (simp add: fftOrder_of_def F(1))
    from fbSize_of_order [OF this] show ?thesis using True F(4) by simp
  next
    case False
    then have "1 < F" using F(2) by simp
    then obtain k where k: "2 ^ k < F" "F \<le> 2 ^ Suc k"
      using ex_pow2_range by blast
    have k30: "k < 30"
    proof (rule ccontr)
      assume "\<not> k < 30"
      then have "(2::nat) ^ 30 \<le> 2 ^ k" by (intro power_increasing) auto
      then show False using k(1) F(3) by linarith
    qed
    have r1: "(2::real) ^ k < real F" using k(1)
      by (metis of_nat_less_iff of_nat_numeral of_nat_power)
    have r2: "real F \<le> (2::real) ^ Suc k" using k(2)
      by (metis of_nat_le_iff of_nat_numeral of_nat_power)
    have "fftOrder_of fftSize = int (Suc k)"
      unfolding fftOrder_of_def F(1) using r1 r2 by (rule ceiling_log2_range)
    from fbSize_of_order [OF this] k30 show ?thesis by simp
  qed
  then show "0 \<le> fbSize_of fftSize" and "2 \<le> fftSize \<Longrightarrow> 1 \<le> fbSize_of fftSize"
    by simp_all
qed

lemma fbSize_of_nonneg: "0 < fftSize \<Longrightarrow> fftSize \<le> 2 ^ 30 \<Longrightarrow> 0 \<le> fbSize_of fftSize"
  by (rule fbSize_of_bounds)

lemma MelFb_built:
  assumes "0 < fftSize" "fftSize \<le> 2 ^ 30" "0 < numBanks" "real_of_int hicut \<le> SAMPLE_RATE"
  shows "MelFb fftSize numBanks locut hicut = Inr
           \<lparr>numFilterBanks = numBanks, fbSize = fbSize_of fftSize, hiCut = hicut, loCut = locut,
            fLo = fst (calcBounds (fbSize_of fftSize) (nat numBanks) locut hicut),
            fHi = snd (snd (calcBounds (fbSize_of fftSize) (nat numBanks) locut hicut)),
            fbank = calcWeights (fbSize_of fftSize) (nat numBanks)
                      (calcBounds (fbSize_of fftSize) (nat numBanks) locut hicut)\<rparr>"
  using assms fbSize_of_nonneg [of fftSize]
  by (simp add: MelFb_def calcMelFB_def Let_def)

subsection \<open>Construction\<close>

lemma length_center_loop:
  "center_loop bs d n is mc (lo, ce, hi) = (lo', ce', hi') \<Longrightarrow>
     length lo' = length lo \<and> length ce' = length ce \<and> length hi' = length hi"
proof (induction "is" arbitrary: mc lo ce hi)
  case Nil
  then show ?case by simp
next
  case (Cons i "is")
  from Cons.prems show ?case
    by (simp add: Let_def split: if_splits) (drule Cons.IH, simp)+
qed

lemma length_calcBounds:
  "length (fst (calcBounds fbsz n lc hc)) = n \<and>
   length (fst (snd (calcBounds fbsz n lc hc))) = n \<and>
   length (snd (snd (calcBounds fbsz n lc hc))) = n"
proof -
  obtain lo ce hi where r:
    "center_loop (binSize_of fbsz)
       ((linToMel (real_of_int hc) - linToMel (real_of_int lc)) / real (n + 1)) n [0..<n]
       (linToMel (real_of_int lc))
       ((replicate n 0)[0 := roundf (real_of_int lc / binSize_of fbsz)], replicate n 0, replicate n 0)
     = (lo, ce, hi)"
    by (metis prod_cases3)
  show ?thesis
    unfolding calcBounds_def Let_def r using length_center_loop [OF r] by simp
qed







subsection \<open>Band boundaries\<close>

lemma center_loop_upt:
  "center_loop bs d n [j..<n] mc (lo, ce, hi) = (lo', ce', hi') \<Longrightarrow>
   j \<le> n \<Longrightarrow> length lo = n \<Longrightarrow> length ce = n \<Longrightarrow> length hi = n \<Longrightarrow>
   mc = m0 + real j * d \<Longrightarrow>
     (\<forall>k<n. ce' ! k = (if j \<le> k then roundf (melToLin (m0 + real (k + 1) * d) / bs) else ce ! k)) \<and>
     (\<forall>k<n. lo' ! k = (if j < k then roundf (melToLin (m0 + real k * d) / bs) else lo ! k)) \<and>
     (\<forall>k<n. hi' ! k = (if j \<le> k + 1 \<and> k + 1 < n
                        then roundf (melToLin (m0 + real (k + 2) * d) / bs) else hi ! k))"
proof (induction "n - j" arbitrary: j mc lo ce hi)
  case 0
  then show ?case by auto
next
  case (Suc x)
  from Suc.hyps(2) have jn: "j < n" by simp
  then have u: "[j..<n] = j # [Suc j..<n]" by (simp add: upt_conv_Cons)
  define c where "c = roundf (melToLin (mc + d) / bs)"
  define ce1 where "ce1 = ce[j := c]"
  define hi1 where "hi1 = (if 0 < j then hi[j - 1 := c] else hi)"
  define lo1 where "lo1 = (if int j < int n - 1 then lo[j + 1 := c] else lo)"
  have mc': "mc + d = m0 + real (Suc j) * d"
    using Suc.prems(6) by (simp add: algebra_simps)
  have cj: "c = roundf (melToLin (m0 + real (Suc j) * d) / bs)"
    by (simp only: c_def mc')
  have step: "center_loop bs d n [Suc j..<n] (mc + d) (lo1, ce1, hi1) = (lo', ce', hi')"
    using Suc.prems(1) unfolding u c_def ce1_def hi1_def lo1_def
    by (simp only: center_loop.simps Let_def)
  have len: "length lo1 = n" "length ce1 = n" "length hi1 = n"
    using Suc.prems by (simp_all add: lo1_def ce1_def hi1_def)
  have x: "x = n - Suc j" using Suc.hyps(2) by simp
  have sj: "Suc j \<le> n" using jn by simp
  note IH = Suc.hyps(1) [OF x step sj len mc']
  have ce: "\<forall>k<n. ce' ! k = (if j \<le> k then roundf (melToLin (m0 + real (k + 1) * d) / bs) else ce ! k)"
  proof (intro allI impI)
    fix k assume k: "k < n"
    show "ce' ! k = (if j \<le> k then roundf (melToLin (m0 + real (k + 1) * d) / bs) else ce ! k)"
      using IH k Suc.prems(4) cj by (cases "k = j") (auto simp: ce1_def)
  qed
  have lo: "\<forall>k<n. lo' ! k = (if j < k then roundf (melToLin (m0 + real k * d) / bs) else lo ! k)"
  proof (intro allI impI)
    fix k assume k: "k < n"
    show "lo' ! k = (if j < k then roundf (melToLin (m0 + real k * d) / bs) else lo ! k)"
      using IH k Suc.prems(3) cj by (cases "k = Suc j") (auto simp: lo1_def)
  qed
  have hi: "\<forall>k<n. hi' ! k = (if j \<le> k + 1 \<and> k + 1 < n
                        then roundf (melToLin (m0 + real (k + 2) * d) / bs) else hi ! k)"
  proof (intro allI impI)
    fix k assume k: "k < n"
    have two: "real (k + 2) = real (Suc (Suc k))" by simp
    show "hi' ! k = (if j \<le> k + 1 \<and> k + 1 < n
                        then roundf (melToLin (m0 + real (k + 2) * d) / bs) else hi ! k)"
    proof (cases "Suc k = j")
      case True
      then show ?thesis using IH k Suc.prems(5) cj jn by (auto simp: hi1_def)
    next
      case False
      then show ?thesis using IH k Suc.prems(5) by (auto simp: hi1_def)
    qed
  qed
  from ce lo hi show ?case by blast
qed


lemma calcBounds_nth:
  assumes n: "0 < n" and k: "k < n"
  shows "centerBin (calcBounds fbsz n lc hc) k = spec_center fbsz n lc hc k"
    and "loBin (calcBounds fbsz n lc hc) k =
           (if 0 < k then spec_center fbsz n lc hc (k - 1)
            else roundf (real_of_int lc / binSize_of fbsz))"
    and "hiBin (calcBounds fbsz n lc hc) k =
           (if k + 1 < n then spec_center fbsz n lc hc (k + 1)
            else real_of_int hc / binSize_of fbsz)"
proof -
  define d where "d = (linToMel (real_of_int hc) - linToMel (real_of_int lc)) / real (n + 1)"
  define lo0 where "lo0 = (replicate n (0::real))[0 := roundf (real_of_int lc / binSize_of fbsz)]"
  obtain lo ce hi where r:
    "center_loop (binSize_of fbsz) d n [0..<n] (linToMel (real_of_int lc))
       (lo0, replicate n 0, replicate n 0) = (lo, ce, hi)"
    by (metis prod_cases3)
  have cb: "calcBounds fbsz n lc hc = (lo, ce, hi[n - 1 := real_of_int hc / binSize_of fbsz])"
    unfolding calcBounds_def Let_def using r unfolding d_def lo0_def by simp
  have inv:
    "(\<forall>k<n. ce ! k = (if 0 \<le> k then roundf (melToLin (linToMel (real_of_int lc) + real (k + 1) * d) / binSize_of fbsz) else replicate n 0 ! k)) \<and>
     (\<forall>k<n. lo ! k = (if 0 < k then roundf (melToLin (linToMel (real_of_int lc) + real k * d) / binSize_of fbsz) else lo0 ! k)) \<and>
     (\<forall>k<n. hi ! k = (if 0 \<le> k + 1 \<and> k + 1 < n
                        then roundf (melToLin (linToMel (real_of_int lc) + real (k + 2) * d) / binSize_of fbsz) else replicate n 0 ! k))"
    by (rule center_loop_upt [OF r]) (simp_all add: lo0_def)
  have len: "length hi = n" using length_center_loop [OF r] by simp
  show "centerBin (calcBounds fbsz n lc hc) k = spec_center fbsz n lc hc k"
    using inv k by (simp add: cb centerBin_def spec_center_def spec_delta_def d_def)
  show "loBin (calcBounds fbsz n lc hc) k =
           (if 0 < k then spec_center fbsz n lc hc (k - 1)
            else roundf (real_of_int lc / binSize_of fbsz))"
    using inv k n by (simp add: cb loBin_def spec_center_def spec_delta_def d_def lo0_def)
  show "hiBin (calcBounds fbsz n lc hc) k =
           (if k + 1 < n then spec_center fbsz n lc hc (k + 1)
            else real_of_int hc / binSize_of fbsz)"
  proof (cases "k + 1 < n")
    case True
    then show ?thesis
      using inv k by (simp add: cb hiBin_def spec_center_def spec_delta_def d_def)
  next
    case False
    then have "k = n - 1" using k by simp
    then show ?thesis using False len n by (simp add: cb hiBin_def)
  qed
qed

lemma MelFb_Inr:
  assumes "MelFb fftSize numBanks locut hicut = Inr m"
  shows "0 < fftSize" "0 < numBanks" "real_of_int hicut \<le> SAMPLE_RATE"
    "numFilterBanks m = numBanks" "fbSize m = fbSize_of fftSize" "0 \<le> fbSize m"
    "fLo m = fst (calcBounds (fbSize m) (nat numBanks) locut hicut)"
    "fHi m = snd (snd (calcBounds (fbSize m) (nat numBanks) locut hicut))"
    "fbank m = calcWeights (fbSize m) (nat numBanks) (calcBounds (fbSize m) (nat numBanks) locut hicut)"
  using assms by (auto simp: MelFb_def calcMelFB_def Let_def split: if_splits)


lemma roundf_mono: "x \<le> y \<Longrightarrow> roundf x \<le> roundf y"
  unfolding roundf_def
  by (auto intro!: floor_mono ceiling_mono) linarith


subsection \<open>Evaluating the construction at concrete configurations\<close>

lemma linToMel_geometric:
  assumes a: "0 < 700 + a" and r: "0 < r"
  shows "linToMel ((700 + a) * r ^ k - 700) = linToMel a + real k * (2595 * (ln r / ln 10))"
proof -
  have "1 + ((700 + a) * r ^ k - 700) / 700 = (1 + a / 700) * r ^ k"
    by (simp add: field_simps)
  moreover have "ln ((1 + a / 700) * r ^ k) = ln (1 + a / 700) + real k * ln r"
    using a r by (simp add: ln_mult ln_realpow)
  ultimately show ?thesis
    by (simp add: linToMel_def field_simps)
qed

lemma spec_center_geometric:
  assumes lc: "0 < 700 + real_of_int lc" and r: "0 < r"
    and hc: "700 + real_of_int hc = (700 + real_of_int lc) * r ^ (n + 1)"
  shows "spec_center fbsz n lc hc i =
           roundf (((700 + real_of_int lc) * r ^ (i + 1) - 700) / binSize_of fbsz)"
proof -
  define K where "K = 2595 * (ln r / ln 10)"
  have "real_of_int hc = (700 + real_of_int lc) * r ^ (n + 1) - 700"
    using hc by simp
  then have "linToMel (real_of_int hc) = linToMel (real_of_int lc) + real (n + 1) * K"
    using linToMel_geometric [OF lc r, of "n + 1"] by (simp add: K_def)
  then have d: "spec_delta n lc hc = K"
    by (simp add: spec_delta_def)
  have gt: "- 700 < (700 + real_of_int lc) * r ^ (i + 1) - 700"
    using lc r by simp
  have "melToLin (linToMel (real_of_int lc) + real (i + 1) * K)
          = melToLin (linToMel ((700 + real_of_int lc) * r ^ (i + 1) - 700))"
    using linToMel_geometric [OF lc r, of "i + 1"] by (simp add: K_def)
  also have "\<dots> = (700 + real_of_int lc) * r ^ (i + 1) - 700"
    using gt by (rule melToLin_linToMel)
  finally show ?thesis
    by (simp add: spec_center_def d)
qed

lemma list1_eq: "length xs = 1 \<Longrightarrow> xs ! 0 = a \<Longrightarrow> xs = [a]"
  by (cases xs) auto

lemma list2_eq: "length xs = 2 \<Longrightarrow> xs ! 0 = a \<Longrightarrow> xs ! 1 = b \<Longrightarrow> xs = [a, b]"
  by (cases xs; cases "tl xs") auto

lemma fbSize_of_16: "fbSize_of 16 = 8"
  using fbSize_of_range [of 3 16] by simp

lemma calcBounds_16_2_4_1676:
  "calcBounds 8 2 4 1676 = ([0, 1], [1, 2], [2, 1257 / 400])"
proof -
  have c: "spec_center 8 2 4 1676 i = roundf ((704 * (3 / 2) ^ (i + 1) - 700) / binSize_of 8)" for i
    using spec_center_geometric [of 4 "3 / 2" 1676 2 8 i] by (simp add: power3_eq_cube)
  have c0: "spec_center 8 2 4 1676 0 = 1" and c1: "spec_center 8 2 4 1676 1 = 2"
    by (simp_all add: c binSize_of_def SAMPLE_RATE_def roundf_def power2_eq_square)
  note nth = calcBounds_nth [of 2 _ 8 4 1676]
  have lo: "fst (calcBounds 8 2 4 1676) = [0, 1]"
    using nth(2) [of 0] nth(2) [of 1] c0
    by (intro list2_eq) (simp_all add: length_calcBounds loBin_def binSize_of_def SAMPLE_RATE_def roundf_def)
  have ce: "fst (snd (calcBounds 8 2 4 1676)) = [1, 2]"
    using nth(1) [of 0] nth(1) [of 1] c0 c1
    by (intro list2_eq) (simp_all add: length_calcBounds centerBin_def)
  have hi: "snd (snd (calcBounds 8 2 4 1676)) = [2, 1257 / 400]"
    using nth(3) [of 0] nth(3) [of 1] c1
    by (intro list2_eq) (simp_all add: length_calcBounds hiBin_def binSize_of_def SAMPLE_RATE_def)
  show ?thesis using lo ce hi by (simp add: prod_eq_iff)
qed

lemma upt_8: "[0..<8] = [0, 1, 2, 3, 4, 5, 6, 7]"
  by code_simp

lemma upt_2: "[0..<2] = [0, 1]"
  by code_simp

lemma MelFb_16_2_4_1676:
  "MelFb 16 2 4 1676 = Inr
     \<lparr>numFilterBanks = 2, fbSize = 8, hiCut = 1676, loCut = 4,
      fLo = [0, 1], fHi = [2, 1257 / 400],
      fbank = [[0, 0, 1, 0, 0, 0, 0, 0], [0, 0, 0, 1, 0, 0, 0, 0]]\<rparr>"
  by (simp add: MelFb_def calcMelFB_def SAMPLE_RATE_def fbSize_of_16 calcBounds_16_2_4_1676
      calcWeights_def loBin_def centerBin_def hiBin_def upt_8 upt_2)


lemma fbSize_of_4: "fbSize_of 4 = 2"
  using fbSize_of_range [of 1 4] by simp

lemma calcBounds_4_2_1300_1962:
  "calcBounds 2 2 1300 1962 = ([0, 1], [1, 1], [1, 2943 / 4000])"
proof -
  have c: "spec_center 2 2 1300 1962 i = roundf ((2000 * (11 / 10) ^ (i + 1) - 700) / binSize_of 2)" for i
    using spec_center_geometric [of 1300 "11 / 10" 1962 2 2 i] by (simp add: power3_eq_cube)
  have c0: "spec_center 2 2 1300 1962 0 = 1" and c1: "spec_center 2 2 1300 1962 1 = 1"
    by (simp_all add: c binSize_of_def SAMPLE_RATE_def roundf_def power2_eq_square)
  note nth = calcBounds_nth [of 2 _ 2 1300 1962]
  have lo: "fst (calcBounds 2 2 1300 1962) = [0, 1]"
    using nth(2) [of 0] nth(2) [of 1] c0
    by (intro list2_eq) (simp_all add: length_calcBounds loBin_def binSize_of_def SAMPLE_RATE_def roundf_def)
  have ce: "fst (snd (calcBounds 2 2 1300 1962)) = [1, 1]"
    using nth(1) [of 0] nth(1) [of 1] c0 c1
    by (intro list2_eq) (simp_all add: length_calcBounds centerBin_def)
  have hi: "snd (snd (calcBounds 2 2 1300 1962)) = [1, 2943 / 4000]"
    using nth(3) [of 0] nth(3) [of 1] c1
    by (intro list2_eq) (simp_all add: length_calcBounds hiBin_def binSize_of_def SAMPLE_RATE_def)
  show ?thesis using lo ce hi by (simp add: prod_eq_iff)
qed

lemma MelFb_4_2_1300_1962:
  "MelFb 4 2 1300 1962 = Inr
     \<lparr>numFilterBanks = 2, fbSize = 2, hiCut = 1962, loCut = 1300,
      fLo = [0, 1], fHi = [1, 2943 / 4000], fbank = [[0, 0], [0, 0]]\<rparr>"
  by (simp add: MelFb_def calcMelFB_def SAMPLE_RATE_def fbSize_of_4 calcBounds_4_2_1300_1962
      calcWeights_def loBin_def centerBin_def hiBin_def upt_2)

lemma calcBounds_16_1_0_5600:
  "calcBounds 8 (Suc 0) 0 5600 = ([0], [3], [21 / 2])"
proof -
  have c: "spec_center 8 (Suc 0) 0 5600 i = roundf ((700 * 3 ^ (i + 1) - 700) / binSize_of 8)" for i
    using spec_center_geometric [of 0 3 5600 "Suc 0" 8 i] by simp
  have c0: "spec_center 8 (Suc 0) 0 5600 0 = 3"
    by (simp add: c binSize_of_def SAMPLE_RATE_def roundf_def)
  note nth = calcBounds_nth [of "Suc 0" _ 8 0 5600]
  have lo: "fst (calcBounds 8 (Suc 0) 0 5600) = [0]"
    using nth(2) [of 0]
    by (intro list1_eq) (simp_all add: length_calcBounds loBin_def binSize_of_def SAMPLE_RATE_def roundf_def)
  have ce: "fst (snd (calcBounds 8 (Suc 0) 0 5600)) = [3]"
    using nth(1) [of 0] c0
    by (intro list1_eq) (simp_all add: length_calcBounds centerBin_def)
  have hi: "snd (snd (calcBounds 8 (Suc 0) 0 5600)) = [21 / 2]"
    using nth(3) [of 0]
    by (intro list1_eq) (simp_all add: length_calcBounds hiBin_def binSize_of_def SAMPLE_RATE_def)
  show ?thesis using lo ce hi by (simp add: prod_eq_iff)
qed

lemma upt_1: "[0..<1] = [0]"
  by code_simp

lemma MelFb_16_1_0_5600:
  "MelFb 16 1 0 5600 = Inr
     \<lparr>numFilterBanks = 1, fbSize = 8, hiCut = 5600, loCut = 0,
      fLo = [0], fHi = [21 / 2],
      fbank = [[0, 0, 1 / 3, 2 / 3, 1, 13 / 15, 11 / 15, 3 / 5]]\<rparr>"
  by (simp add: MelFb_def calcMelFB_def SAMPLE_RATE_def fbSize_of_16 calcBounds_16_1_0_5600
      calcWeights_def loBin_def centerBin_def hiBin_def upt_8 upt_1)

lemmas fws_defs = bindE_def fwsMalloc_32f_def fwsZero_32f_def fwsCopy_32f_def fwsMul_32f_I_def
  fwsSum_32f_def

lemma apply_16_2_4_1676:
  "applyMelFB
     \<lparr>numFilterBanks = 2, fbSize = 8, hiCut = 1676, loCut = 4,
      fLo = [0, 1], fHi = [2, 1257 / 400],
      fbank = [[0, 0, 1, 0, 0, 0, 0, 0], [0, 0, 0, 1, 0, 0, 0, 0]]\<rparr>
     (\<lambda>i. 7) [[5, 5]]
     \<lparr>NoOfWindows = 1, spectrogramm = [[1, 1, 1, 1, 1, 1, 1, 1]]\<rparr>
   = Inr [[0, 1]]"
  by (simp add: applyMelFB_def apply_band_def fws_defs upt_2 upt_1 Let_def
        numeral_3_eq_3 numeral_2_eq_2)

lemma apply_16_1_0_5600:
  "applyMelFB
     \<lparr>numFilterBanks = 1, fbSize = 8, hiCut = 5600, loCut = 0,
      fLo = [0], fHi = [21 / 2],
      fbank = [[0, 0, 1 / 3, 2 / 3, 1, 13 / 15, 11 / 15, 3 / 5]]\<rparr>
     (\<lambda>i. 7) [[5]]
     \<lparr>NoOfWindows = 1, spectrogramm = [[1, 1, 1, 1, 1, 1, 1, 1]]\<rparr>
   = Inl OutOfBounds"
  by (simp add: applyMelFB_def apply_band_def fws_defs upt_1 Let_def)

subsection \<open>The weight loop\<close>

lemma tri_loop_upt:
  "j \<le> N \<Longrightarrow> l < c \<Longrightarrow> real c \<le> hi \<Longrightarrow> (real j \<le> hi + 1 \<longrightarrow> x = tri_acc l c hi j) \<Longrightarrow>
     tri_loop (real l) (real c) hi [j..<N] x = map (tri_weight l c hi) [j..<N]"
proof (induction "N - j" arbitrary: j x)
  case 0
  then show ?case by simp
next
  case (Suc d)
  from Suc.hyps(2) have jN: "j < N" by simp
  then have u: "[j..<N] = j # [Suc j..<N]" by (simp add: upt_conv_Cons)
  have d: "d = N - Suc j" using Suc.hyps(2) by simp
  have sj: "Suc j \<le> N" using jN by simp
  note lc = Suc.prems(2) and chi = Suc.prems(3)
  consider (rise) "l < j" "j \<le> c" | (fall) "c < j" "real j \<le> hi" | (out) "j \<le> l" | (above) "hi < real j"
    by linarith
  then show ?case
  proof cases
    case rise
    have jh: "real j \<le> hi + 1" using rise chi by linarith
    then have x: "x = real (j - l - 1) / real (c - l)"
      using Suc.prems(4) rise by (auto simp: tri_acc_def)
    have "x + 1 / (real c - real l) = tri_acc l c hi (Suc j)"
      using rise lc by (simp add: x tri_acc_def field_simps of_nat_diff)
    then have "tri_loop (real l) (real c) hi [Suc j..<N] (x + 1 / (real c - real l))
                 = map (tri_weight l c hi) [Suc j..<N]"
      by (intro Suc.hyps(1) [OF d sj lc chi]) simp
    then show ?thesis
      unfolding u using rise x by (simp add: tri_weight_def)
  next
    case fall
    have jh: "real j \<le> hi + 1" using fall by linarith
    then have xa: "x = tri_acc l c hi j" using Suc.prems(4) by simp
    have x: "x = 1 - real (j - c - 1) / (hi - real c)"
    proof (cases "j = Suc c")
      case True
      then show ?thesis using lc by (simp add: xa tri_acc_def)
    next
      case False
      then show ?thesis using fall lc by (simp add: xa tri_acc_def)
    qed
    have hc: "0 < hi - real c" using fall by linarith
    have r: "real (Suc j - c - 1) = real (j - c - 1) + 1" using fall by simp
    have "tri_acc l c hi (Suc j) = 1 - real (Suc j - c - 1) / (hi - real c)"
      using fall lc by (simp add: tri_acc_def)
    then have "x - 1 / (hi - real c) = tri_acc l c hi (Suc j)"
      unfolding r x by (simp add: add_divide_distrib)
    then have "tri_loop (real l) (real c) hi [Suc j..<N] (x - 1 / (hi - real c))
                 = map (tri_weight l c hi) [Suc j..<N]"
      by (intro Suc.hyps(1) [OF d sj lc chi]) simp
    then show ?thesis
      unfolding u using fall x lc by (simp add: tri_weight_def)
  next
    case out
    have jh: "real j \<le> hi + 1" using out lc chi by linarith
    then have x: "x = 0" using Suc.prems(4) out by (simp add: tri_acc_def)
    have "x = tri_acc l c hi (Suc j)" using out by (simp add: x tri_acc_def)
    then have "tri_loop (real l) (real c) hi [Suc j..<N] x = map (tri_weight l c hi) [Suc j..<N]"
      by (intro Suc.hyps(1) [OF d sj lc chi]) simp
    then show ?thesis
      unfolding u using out lc by (simp add: tri_weight_def)
  next
    case above
    have "\<not> real (Suc j) \<le> hi + 1" using above by simp
    then have "tri_loop (real l) (real c) hi [Suc j..<N] x = map (tri_weight l c hi) [Suc j..<N]"
      by (intro Suc.hyps(1) [OF d sj lc chi]) simp
    then show ?thesis
      unfolding u using above lc chi by (simp add: tri_weight_def)
  qed
qed

lemma tri_loop_closed_form:
  assumes "l < c" "real c \<le> hi" "k < N"
  shows "tri_loop (real l) (real c) hi [0..<N] 0 ! k = tri_weight l c hi k"
  using tri_loop_upt [of 0 N l c hi 0] assms by (simp add: tri_acc_def)

subsection \<open>The loops of applyMelFB\<close>

lemma fwsZero_32f_full: "length buf = nat len \<Longrightarrow> fwsZero_32f buf len = Inr (replicate (nat len) 0)"
  by (auto simp: fwsZero_32f_def)

lemma apply_band_unfold:
  "apply_band m stft mfs w b (fs, fr, out) =
     bindE (fwsZero_32f fs mfs) (\<lambda>filterSparse.
     bindE (fwsZero_32f fr mfs) (\<lambda>frameSparse.
     if length (spectrogramm stft) \<le> w then Inl OutOfBounds else
     bindE (fwsCopy_32f (spectrogramm stft ! w) (sparse_lo m b) frameSparse (sparse_size m b)) (\<lambda>frameSparse.
     bindE (fwsCopy_32f (fbank m ! b) (sparse_lo m b) filterSparse (sparse_size m b)) (\<lambda>filterSparse.
     bindE (fwsMul_32f_I frameSparse filterSparse (sparse_size m b)) (\<lambda>filterSparse.
     if length out \<le> w then Inl OutOfBounds else
     bindE (fwsSum_32f filterSparse (sparse_size m b)) (\<lambda>r.
       case r of
         None \<Rightarrow> Inr (filterSparse, frameSparse, out)
       | Some v \<Rightarrow>
           if length (out ! w) \<le> b then Inl OutOfBounds
           else Inr (filterSparse, frameSparse, out[w := (out ! w)[b := v]])))))))"
  unfolding apply_band_def Let_def prod.case sparse_size_def sparse_lo_def ..

lemma apply_band_skip:
  assumes "length fs = nat mfs" "length fr = nat mfs" "sparse_size m b \<le> 0"
  shows "apply_band m stft mfs w b (fs, fr, out) =
           (if w < length (spectrogramm stft) \<and> w < length out
            then Inr (replicate (nat mfs) 0, replicate (nat mfs) 0, out) else Inl OutOfBounds)"
  using assms
  by (simp add: apply_band_unfold fwsZero_32f_full bindE_def fwsCopy_32f_def
        fwsMul_32f_I_def fwsSum_32f_def)

lemma apply_band_bad:
  assumes "length fs = nat mfs" "length fr = nat mfs" "0 < sparse_size m b"
    and "\<not> sparse_in_range m stft mfs w b"
  shows "apply_band m stft mfs w b (fs, fr, out) = Inl OutOfBounds"
  using assms
  by (auto simp add: apply_band_unfold sparse_in_range_def
        fwsZero_32f_full bindE_def fwsCopy_32f_def)

lemma apply_band_good:
  assumes "length fs = nat mfs" "length fr = nat mfs" "0 < sparse_size m b"
    and "sparse_in_range m stft mfs w b"
  shows "\<exists>fs' fr'. length fs' = nat mfs \<and> length fr' = nat mfs \<and>
          apply_band m stft mfs w b (fs, fr, out) =
           (if w < length out \<and> b < length (out ! w)
            then Inr (fs', fr', write_cell out w b (sparse_value m stft w b))
            else Inl OutOfBounds)"
proof -
  define n where "n = nat (sparse_size m b)"
  define z where "z = replicate (nat mfs) (0::real)"
  define A where "A = take n (drop (nat (sparse_lo m b)) (spectrogramm stft ! w))"
  define B where "B = take n (drop (nat (sparse_lo m b)) (fbank m ! b))"
  have r: "w < length (spectrogramm stft)" "0 \<le> sparse_lo m b"
    "sparse_lo m b + sparse_size m b \<le> int (length (spectrogramm stft ! w))"
    "sparse_lo m b + sparse_size m b \<le> int (length (fbank m ! b))"
    "sparse_size m b \<le> mfs"
    using assms(3,4) by (simp_all add: sparse_in_range_def)
  have lA: "length A = n" using r assms(3) by (simp add: A_def n_def)
  have lB: "length B = n" using r assms(3) by (simp add: B_def n_def)
  have nz: "n \<le> length z" using r by (simp add: n_def z_def)
  have c1: "fwsCopy_32f (spectrogramm stft ! w) (sparse_lo m b) z (sparse_size m b) = Inr (A @ drop n z)"
    using r assms(3) by (simp add: fwsCopy_32f_def A_def n_def z_def)
  have c2: "fwsCopy_32f (fbank m ! b) (sparse_lo m b) z (sparse_size m b) = Inr (B @ drop n z)"
    using r assms(3) by (simp add: fwsCopy_32f_def B_def n_def z_def)
  have iz: "int (length z) = mfs" using r assms(3) by (simp add: z_def)
  have mu: "fwsMul_32f_I (A @ drop n z) (B @ drop n z) (sparse_size m b)
              = Inr (map2 (*) A B @ drop n z)"
    using r assms(3) lA lB nz iz by (simp add: fwsMul_32f_I_def n_def [symmetric])
  have su: "fwsSum_32f (map2 (*) A B @ drop n z) (sparse_size m b) = Inr (Some (sum_list (map2 (*) A B)))"
    using r assms(3) lA lB nz iz by (simp add: fwsSum_32f_def n_def [symmetric])
  have sv: "sparse_value m stft w b = Some (sum_list (map2 (*) A B))"
    using assms(3) by (simp add: sparse_value_def A_def B_def n_def)
  have len: "length (map2 (*) A B @ drop n z) = nat mfs" "length (A @ drop n z) = nat mfs"
    using lA lB nz by (simp_all add: z_def)
  have "apply_band m stft mfs w b (fs, fr, out) =
           (if w < length out \<and> b < length (out ! w)
            then Inr (map2 (*) A B @ drop n z, A @ drop n z, write_cell out w b (sparse_value m stft w b))
            else Inl OutOfBounds)"
    using assms(1,2) r(1)
    by (simp add: apply_band_unfold fwsZero_32f_full z_def [symmetric] bindE_def c1 c2 mu su sv)
  then show ?thesis using len by blast
qed

lemma apply_band_out_band:
  assumes "length fs = nat mfs" "length fr = nat mfs"
  shows "\<exists>fs' fr'. length fs' = nat mfs \<and> length fr' = nat mfs \<and>
           apply_band m stft mfs w b (fs, fr, out) =
             (case out_band m stft mfs w b out of
                Inl e \<Rightarrow> Inl e
              | Inr out' \<Rightarrow> Inr (fs', fr', out'))"
proof (cases "sparse_size m b \<le> 0")
  case True
  have "sparse_value m stft w b = None" using True by (simp add: sparse_value_def)
  moreover have "sparse_in_range m stft mfs w b \<longleftrightarrow> w < length (spectrogramm stft)"
    using True by (simp add: sparse_in_range_def)
  ultimately have "apply_band m stft mfs w b (fs, fr, out) =
             (case out_band m stft mfs w b out of
                Inl e \<Rightarrow> Inl e
              | Inr out' \<Rightarrow> Inr (replicate (nat mfs) 0, replicate (nat mfs) 0, out'))"
    using apply_band_skip [OF assms True] by (simp add: out_band_def)
  then show ?thesis by (metis length_replicate)
next
  case False
  then have pos: "0 < sparse_size m b" by simp
  then have sv: "sparse_value m stft w b \<noteq> None" by (simp add: sparse_value_def)
  show ?thesis
  proof (cases "sparse_in_range m stft mfs w b")
    case True
    from apply_band_good [OF assms pos True, of out] obtain fs' fr' where
      h: "length fs' = nat mfs" "length fr' = nat mfs"
         "apply_band m stft mfs w b (fs, fr, out) =
           (if w < length out \<and> b < length (out ! w)
            then Inr (fs', fr', write_cell out w b (sparse_value m stft w b))
            else Inl OutOfBounds)" by blast
    have "apply_band m stft mfs w b (fs, fr, out) =
             (case out_band m stft mfs w b out of
                Inl e \<Rightarrow> Inl e
              | Inr out' \<Rightarrow> Inr (fs', fr', out'))"
      using h(3) True sv by (simp add: out_band_def)
    then show ?thesis using h(1,2) by blast
  next
    case False
    then show ?thesis
      using apply_band_bad [OF assms pos False] assms by (auto simp: out_band_def)
  qed
qed


lemma band_loop_out_bands:
  "length fs = nat mfs \<Longrightarrow> length fr = nat mfs \<Longrightarrow>
     \<exists>fs' fr'. length fs' = nat mfs \<and> length fr' = nat mfs \<and>
       band_loop m stft mfs w bs (fs, fr, out) =
         (case out_bands m stft mfs w bs out of
            Inl e \<Rightarrow> Inl e
          | Inr out' \<Rightarrow> Inr (fs', fr', out'))"
proof (induction bs arbitrary: fs fr out)
  case Nil
  then show ?case by simp
next
  case (Cons b bs)
  from apply_band_out_band [OF Cons.prems, of m stft w b out] obtain fs1 fr1 where
    h: "length fs1 = nat mfs" "length fr1 = nat mfs"
       "apply_band m stft mfs w b (fs, fr, out) =
          (case out_band m stft mfs w b out of
             Inl e \<Rightarrow> Inl e
           | Inr out' \<Rightarrow> Inr (fs1, fr1, out'))" by blast
  show ?case
  proof (cases "out_band m stft mfs w b out")
    case (Inl e)
    then show ?thesis using h Cons.prems by (auto simp: bindE_def)
  next
    case (Inr o1)
    from Cons.IH [OF h(1,2), of o1] show ?thesis
      using h(3) Inr by (simp add: bindE_def)
  qed
qed

lemma window_loop_out_windows:
  "length fs = nat mfs \<Longrightarrow> length fr = nat mfs \<Longrightarrow>
     \<exists>fs' fr'. length fs' = nat mfs \<and> length fr' = nat mfs \<and>
       window_loop m stft mfs ws (fs, fr, out) =
         (case out_windows m stft mfs ws out of
            Inl e \<Rightarrow> Inl e
          | Inr out' \<Rightarrow> Inr (fs', fr', out'))"
proof (induction ws arbitrary: fs fr out)
  case Nil
  then show ?case by simp
next
  case (Cons w ws)
  from band_loop_out_bands [OF Cons.prems, of m stft w "[0..<nat (numFilterBanks m)]" out]
  obtain fs1 fr1 where
    h: "length fs1 = nat mfs" "length fr1 = nat mfs"
       "band_loop m stft mfs w [0..<nat (numFilterBanks m)] (fs, fr, out) =
          (case out_bands m stft mfs w [0..<nat (numFilterBanks m)] out of
             Inl e \<Rightarrow> Inl e
           | Inr out' \<Rightarrow> Inr (fs1, fr1, out'))" by blast
  show ?case
  proof (cases "out_bands m stft mfs w [0..<nat (numFilterBanks m)] out")
    case (Inl e)
    then show ?thesis using h Cons.prems by (auto simp: bindE_def)
  next
    case (Inr o1)
    from Cons.IH [OF h(1,2), of o1] show ?thesis
      using h(3) Inr by (simp add: bindE_def)
  qed
qed

lemma applyMelFB_out_windows:
  "applyMelFB m heap output stft =
     (if numFilterBanks m \<le> 0 then Inl OutOfBounds
      else out_windows m stft (sparse_size m (nat (numFilterBanks m - 1)))
             [0..<nat (NoOfWindows stft)] output)"
proof (cases "numFilterBanks m \<le> 0")
  case True
  then show ?thesis by (simp add: applyMelFB_def)
next
  case False
  define mfs where "mfs = sparse_size m (nat (numFilterBanks m - 1))"
  have l: "length (fwsMalloc_32f heap mfs) = nat mfs"
    "length (fwsMalloc_32f (\<lambda>i. heap (i + nat mfs)) mfs) = nat mfs"
    by (simp_all add: fwsMalloc_32f_def)
  from window_loop_out_windows [OF l, of m stft "[0..<nat (NoOfWindows stft)]" "output"]
  obtain fs' fr' where
    h: "window_loop m stft mfs [0..<nat (NoOfWindows stft)]
          (fwsMalloc_32f heap mfs, fwsMalloc_32f (\<lambda>i. heap (i + nat mfs)) mfs, output) =
        (case out_windows m stft mfs [0..<nat (NoOfWindows stft)] output of
           Inl e \<Rightarrow> Inl e
         | Inr out' \<Rightarrow> Inr (fs', fr', out'))" by blast
  have "applyMelFB m heap output stft =
          (case window_loop m stft mfs [0..<nat (NoOfWindows stft)]
                  (fwsMalloc_32f heap mfs, fwsMalloc_32f (\<lambda>i. heap (i + nat mfs)) mfs, output) of
             Inl e \<Rightarrow> Inl e
           | Inr s \<Rightarrow> Inr (snd (snd s)))"
    using False by (simp add: applyMelFB_def Let_def mfs_def sparse_size_def)
  also have "\<dots> = out_windows m stft mfs [0..<nat (NoOfWindows stft)] output"
    unfolding h by (simp split: sum.splits)
  finally show ?thesis using False by (simp add: mfs_def)
qed

lemma shape_write_cell: "map length (write_cell out w b r) = map length out"
proof (cases r)
  case None
  then show ?thesis by simp
next
  case (Some v)
  have "(map length out)[w := length (out ! w)] = map length out"
    by (cases "w < length out") (simp_all add: list_update_same_conv list_update_beyond)
  then show ?thesis using Some by (simp add: map_update)
qed

lemma out_band_shape:
  "out_band m stft mfs w b out = Inr out' \<Longrightarrow> map length out' = map length out"
  by (auto simp: out_band_def shape_write_cell split: if_splits)

lemma shape_nth:
  assumes "map length x = map length out"
  shows "length x = length out" and "w < length out \<Longrightarrow> length (x ! w) = length (out ! w)"
proof -
  show l: "length x = length out" using assms by (metis length_map)
  show "length (x ! w) = length (out ! w)" if "w < length out"
    using assms that l by (metis nth_map)
qed

lemma out_band_fixed:
  assumes "out_band m stft mfs w b out = Inr out'" and "map length x = map length out"
    and "holds_value m stft x w b"
  shows "out_band m stft mfs w b x = Inr x"
proof -
  have c: "sparse_in_range m stft mfs w b" "w < length out"
    "sparse_value m stft w b \<noteq> None \<longrightarrow> b < length (out ! w)"
    using assms(1) by (auto simp: out_band_def split: if_splits)
  have wx: "w < length x" using c(2) shape_nth(1) [OF assms(2)] by simp
  have bx: "sparse_value m stft w b \<noteq> None \<longrightarrow> b < length (x ! w)"
    using c(2,3) shape_nth(2) [OF assms(2), of w] by simp
  have "write_cell x w b (sparse_value m stft w b) = x"
    using assms(3) by (cases "sparse_value m stft w b") (simp_all add: holds_value_def)
  then show ?thesis using c(1) wx bx by (simp add: out_band_def)
qed

lemma out_band_holds:
  assumes "out_band m stft mfs w b out = Inr out'"
  shows "holds_value m stft out' w b"
    and "holds_value m stft out w0 b0 \<Longrightarrow> holds_value m stft out' w0 b0"
proof -
  have c: "w < length out" "sparse_value m stft w b \<noteq> None \<longrightarrow> b < length (out ! w)"
    and o: "out' = write_cell out w b (sparse_value m stft w b)"
    using assms by (auto simp: out_band_def split: if_splits)
  show "holds_value m stft out' w b"
    using c by (cases "sparse_value m stft w b") (simp_all add: holds_value_def o)
  show "holds_value m stft out' w0 b0" if h: "holds_value m stft out w0 b0"
  proof (cases "sparse_value m stft w b")
    case None
    then show ?thesis using h by (simp add: o)
  next
    case (Some v)
    show ?thesis
    proof (cases "w0 = w \<and> b0 = b")
      case True
      then show ?thesis using c Some by (simp add: holds_value_def o)
    next
      case False
      have "out' ! w0 ! b0 = out ! w0 ! b0"
        using False c Some by (cases "w0 = w") (auto simp: o)
      then show ?thesis using h by (simp add: holds_value_def split: option.splits)
    qed
  qed
qed

lemma out_bands_holds:
  "out_bands m stft mfs w bs out = Inr out' \<Longrightarrow>
     map length out' = map length out \<and>
     (\<forall>b \<in> set bs. holds_value m stft out' w b) \<and>
     (\<forall>w0 b0. holds_value m stft out w0 b0 \<longrightarrow> holds_value m stft out' w0 b0)"
proof (induction bs arbitrary: out)
  case Nil
  then show ?case by simp
next
  case (Cons b bs)
  from Cons.prems obtain o1 where
    o1: "out_band m stft mfs w b out = Inr o1" and r: "out_bands m stft mfs w bs o1 = Inr out'"
    by (auto simp: bindE_def split: sum.splits)
  note IH = Cons.IH [OF r]
  show ?case
    using IH out_band_shape [OF o1] out_band_holds [OF o1] by auto
qed

lemma out_bands_fixed:
  "out_bands m stft mfs w bs out = Inr out' \<Longrightarrow> map length x = map length out \<Longrightarrow>
     (\<forall>b \<in> set bs. holds_value m stft x w b) \<Longrightarrow> out_bands m stft mfs w bs x = Inr x"
proof (induction bs arbitrary: out)
  case Nil
  then show ?case by simp
next
  case (Cons b bs)
  from Cons.prems(1) obtain o1 where
    o1: "out_band m stft mfs w b out = Inr o1" and r: "out_bands m stft mfs w bs o1 = Inr out'"
    by (auto simp: bindE_def split: sum.splits)
  have x1: "out_band m stft mfs w b x = Inr x"
    using out_band_fixed [OF o1 Cons.prems(2)] Cons.prems(3) by simp
  have "map length x = map length o1"
    using out_band_shape [OF o1] Cons.prems(2) by simp
  from Cons.IH [OF r this] Cons.prems(3) have "out_bands m stft mfs w bs x = Inr x" by simp
  then show ?case using x1 by (simp add: bindE_def)
qed

lemma out_windows_holds:
  "out_windows m stft mfs ws out = Inr out' \<Longrightarrow>
     map length out' = map length out \<and>
     (\<forall>w \<in> set ws. \<forall>b \<in> set [0..<nat (numFilterBanks m)]. holds_value m stft out' w b) \<and>
     (\<forall>w0 b0. holds_value m stft out w0 b0 \<longrightarrow> holds_value m stft out' w0 b0)"
proof (induction ws arbitrary: out)
  case Nil
  then show ?case by simp
next
  case (Cons w ws)
  from Cons.prems obtain o1 where
    o1: "out_bands m stft mfs w [0..<nat (numFilterBanks m)] out = Inr o1"
    and r: "out_windows m stft mfs ws o1 = Inr out'"
    by (auto simp: bindE_def split: sum.splits)
  note IH = Cons.IH [OF r]
  note B = out_bands_holds [OF o1]
  show ?case using IH B by auto
qed

lemma out_windows_fixed:
  "out_windows m stft mfs ws out = Inr out' \<Longrightarrow> map length x = map length out \<Longrightarrow>
     (\<forall>w \<in> set ws. \<forall>b \<in> set [0..<nat (numFilterBanks m)]. holds_value m stft x w b) \<Longrightarrow>
     out_windows m stft mfs ws x = Inr x"
proof (induction ws arbitrary: out)
  case Nil
  then show ?case by simp
next
  case (Cons w ws)
  from Cons.prems(1) obtain o1 where
    o1: "out_bands m stft mfs w [0..<nat (numFilterBanks m)] out = Inr o1"
    and r: "out_windows m stft mfs ws o1 = Inr out'"
    by (auto simp: bindE_def split: sum.splits)
  have x1: "out_bands m stft mfs w [0..<nat (numFilterBanks m)] x = Inr x"
    using out_bands_fixed [OF o1 Cons.prems(2)] Cons.prems(3) by simp
  have "map length x = map length o1"
    using out_bands_holds [OF o1] Cons.prems(2) by simp
  from Cons.IH [OF r this] Cons.prems(3) have "out_windows m stft mfs ws x = Inr x" by simp
  then show ?case using x1 by (simp add: bindE_def)
qed

lemma out_windows_idem:
  assumes "out_windows m stft mfs ws out = Inr out1"
  shows "out_windows m stft mfs ws out1 = Inr out1"
  using out_windows_fixed [OF assms, of out1] out_windows_holds [OF assms] by simp



subsection \<open>Rounding to a floating-point format\<close>

text \<open>
  \<open>rnd_eval\<close> computes \<open>rnd p x\<close> once \<open>x\<close> is scaled by a power of two into the
  range of the \<open>p\<close>-bit integers; \<open>rnd\<close> is monotone and leaves a value that has \<open>p\<close>
  significant bits as it is.
\<close>

lemma round_even_of_int: "round_even (of_int z) = z"
  by (simp add: round_even_def)

lemma round_even_bounds: "\<lfloor>y\<rfloor> \<le> round_even y \<and> round_even y \<le> \<lfloor>y\<rfloor> + 1"
  by (simp add: round_even_def Let_def)

lemma round_even_mono: "a \<le> b \<Longrightarrow> round_even a \<le> round_even b"
proof -
  assume ab: "a \<le> b"
  have fl: "\<lfloor>a\<rfloor> \<le> \<lfloor>b\<rfloor>" using ab by (rule floor_mono)
  show ?thesis
  proof (cases "\<lfloor>a\<rfloor> = \<lfloor>b\<rfloor>")
    case True
    then show ?thesis using ab by (auto simp: round_even_def Let_def)
  next
    case False
    then have "\<lfloor>a\<rfloor> + 1 \<le> \<lfloor>b\<rfloor>" using fl by simp
    then show ?thesis
      using round_even_bounds [of a] round_even_bounds [of b] by linarith
  qed
qed

lemma rnd_0: "rnd p 0 = 0"
  by (simp add: rnd_def)

lemma rnd_minus: "rnd p (- x) = - rnd p x"
  by (simp add: rnd_def Let_def)

lemma floor_log2_scaled:
  assumes x: "0 < x" and lo: "2 ^ (p - 1) \<le> x * 2 powr of_int j" and hi: "x * 2 powr of_int j < 2 ^ p"
    and p: "0 < p"
  shows "\<lfloor>log 2 x\<rfloor> = int (p - 1) - j"
proof -
  have s: "0 < x * 2 powr of_int j" using x by simp
  have l: "log 2 (x * 2 powr of_int j) = log 2 x + of_int j"
    using x by (simp add: log_mult)
  have "log 2 (2 ^ (p - 1)) \<le> log 2 (x * 2 powr of_int j)"
    using lo s by (subst log_le_cancel_iff) auto
  then have a: "real (p - 1) \<le> log 2 x + of_int j"
    by (simp add: l log_nat_power)
  have "log 2 (x * 2 powr of_int j) < log 2 (2 ^ p)"
    using hi s by (subst log_less_cancel_iff) auto
  then have b: "log 2 x + of_int j < real p"
    by (simp add: l log_nat_power)
  show ?thesis
  proof (rule floor_unique)
    show "of_int (int (p - 1) - j) \<le> log 2 x" using a by simp
    show "log 2 x < of_int (int (p - 1) - j) + 1" using b p by (simp add: of_nat_diff)
  qed
qed

lemma rnd_eval:
  assumes x: "0 < x" and lo: "2 ^ (p - 1) \<le> x * 2 powr of_int j" and hi: "x * 2 powr of_int j < 2 ^ p"
    and p: "0 < p"
  shows "rnd p x = of_int (round_even (x * 2 powr of_int j)) / 2 powr of_int j"
proof -
  have e: "\<lfloor>log 2 \<bar>x\<bar>\<rfloor> = int (p - 1) - j"
    using floor_log2_scaled [OF x lo hi p] x by simp
  have "of_int (int (p - 1) - j) - real (p - 1) = - real_of_int j"
    by simp
  then have u: "2 powr (of_int (int (p - 1) - j) - real (p - 1)) = 1 / 2 powr of_int j"
    by (simp only: powr_minus_divide)
  have "rnd p x = sgn x * of_int (round_even (\<bar>x\<bar> / (1 / 2 powr of_int j))) * (1 / 2 powr of_int j)"
    using x unfolding rnd_def Let_def e u by simp
  then show ?thesis using x by simp
qed

lemma rnd_normal:
  fixes x :: real
  assumes x: "0 < x" and p: "0 < p"
  shows "\<exists>j::int. 2 ^ (p - 1) \<le> x * 2 powr of_int j \<and> x * 2 powr of_int j < 2 ^ p"
proof -
  define e where "e = \<lfloor>log 2 x\<rfloor>"
  define j where "j = int (p - 1) - e"
  have le: "of_int e \<le> log 2 x" and lt: "log 2 x < of_int e + 1"
    by (simp_all add: e_def)
  have xe: "x = 2 powr log 2 x" using x by simp
  have "2 powr (of_int e) \<le> 2 powr log 2 x" using le by (simp del: powr_log_cancel)
  then have a: "2 powr of_int e \<le> x" using xe by simp
  have "2 powr log 2 x < 2 powr (of_int e + 1)" using lt by (simp del: powr_log_cancel)
  then have b: "x < 2 powr (of_int e + 1)" using xe by simp
  have "2 powr real_of_int j = 2 powr (real (p - 1) - real_of_int e)"
    by (simp add: j_def)
  also have "\<dots> = 2 powr real (p - 1) / 2 powr real_of_int e"
    by (rule powr_diff)
  finally have pj: "2 powr real_of_int j = 2 ^ (p - 1) / 2 powr real_of_int e"
    by (simp add: powr_realpow)
  have pos: "0 < 2 powr real_of_int e" by simp
  have "2 ^ (p - 1) \<le> x * 2 powr of_int j"
    unfolding pj using a pos by (simp add: field_simps)
  moreover have "x * 2 powr of_int j < 2 ^ p"
  proof -
    have "x * 2 powr of_int j < 2 powr (of_int e + 1) * 2 powr of_int j"
      using b by simp
    also have "\<dots> = 2 * 2 ^ (p - 1)"
      unfolding pj using pos by (simp add: powr_add)
    also have "\<dots> = 2 ^ p" using p by (cases p) simp_all
    finally show ?thesis .
  qed
  ultimately show ?thesis by blast
qed

lemma round_even_pow2: "round_even (2 ^ n) = 2 ^ n"
  using round_even_of_int [of "2 ^ n"] by simp

lemma rnd_scaled:
  assumes x: "0 < x" and lo: "2 ^ (p - 1) \<le> x * 2 powr of_int j" and hi: "x * 2 powr of_int j < 2 ^ p"
    and p: "0 < p"
  shows "2 ^ (p - 1) / 2 powr of_int j \<le> rnd p x" and "rnd p x \<le> 2 ^ p / 2 powr of_int j"
proof -
  have a: "2 ^ (p - 1) \<le> round_even (x * 2 powr of_int j)"
    using round_even_mono [OF lo] by (simp add: round_even_pow2)
  have b: "round_even (x * 2 powr of_int j) \<le> 2 ^ p"
    using round_even_mono [of "x * 2 powr of_int j" "2 ^ p"] hi by (simp add: round_even_pow2)
  have a': "(2::real) ^ (p - 1) \<le> of_int (round_even (x * 2 powr of_int j))"
    using a by (metis of_int_le_iff of_int_numeral of_int_power)
  have b': "of_int (round_even (x * 2 powr of_int j)) \<le> (2::real) ^ p"
    using b by (metis of_int_le_iff of_int_numeral of_int_power)
  show "2 ^ (p - 1) / 2 powr of_int j \<le> rnd p x"
    unfolding rnd_eval [OF x lo hi p] using a' by (simp add: divide_right_mono)
  show "rnd p x \<le> 2 ^ p / 2 powr of_int j"
    unfolding rnd_eval [OF x lo hi p] using b' by (simp add: divide_right_mono)
qed

lemma rnd_pos:
  assumes x: "0 < x" and p: "0 < p"
  shows "0 < rnd p x"
proof -
  obtain j :: int where lo: "2 ^ (p - 1) \<le> x * 2 powr of_int j" and hi: "x * 2 powr of_int j < 2 ^ p"
    using rnd_normal [OF x p] by blast
  have "(0::real) < 2 ^ (p - 1) / 2 powr of_int j" by simp
  then show ?thesis using rnd_scaled(1) [OF x lo hi p] by linarith
qed

lemma rnd_mono_pos:
  assumes x: "0 < x" and xy: "x \<le> y" and p: "0 < p"
  shows "rnd p x \<le> rnd p y"
proof -
  have y: "0 < y" using x xy by linarith
  obtain j :: int where lo: "2 ^ (p - 1) \<le> x * 2 powr of_int j" and hi: "x * 2 powr of_int j < 2 ^ p"
    using rnd_normal [OF x p] by blast
  obtain k :: int where lo': "2 ^ (p - 1) \<le> y * 2 powr of_int k" and hi': "y * 2 powr of_int k < 2 ^ p"
    using rnd_normal [OF y p] by blast
  have pp: "(2::real) ^ p = 2 * 2 ^ (p - 1)" using p by (cases p) simp_all
  have kj: "k \<le> j"
  proof (rule ccontr)
    assume "\<not> k \<le> j"
    then have "j + 1 \<le> k" by simp
    then have "(2::real) powr of_int (j + 1) \<le> 2 powr of_int k" by simp
    then have "2 * 2 powr of_int j \<le> (2::real) powr of_int k"
      by (simp add: powr_add)
    then have "x * (2 * 2 powr of_int j) \<le> y * 2 powr of_int k"
      using xy x by (intro mult_mono) simp_all
    then show False using lo hi' pp by linarith
  qed
  show ?thesis
  proof (cases "k = j")
    case True
    have "x * 2 powr of_int j \<le> y * 2 powr of_int j" using xy by simp
    then have "round_even (x * 2 powr of_int j) \<le> round_even (y * 2 powr of_int j)"
      by (rule round_even_mono)
    then have "real_of_int (round_even (x * 2 powr of_int j)) \<le> real_of_int (round_even (y * 2 powr of_int j))"
      by simp
    then show ?thesis
      unfolding rnd_eval [OF x lo hi p] rnd_eval [OF y lo' [unfolded True] hi' [unfolded True] p]
      by (simp add: divide_right_mono)
  next
    case False
    then have "k + 1 \<le> j" using kj by simp
    then have "(2::real) powr of_int (k + 1) \<le> 2 powr of_int j" by simp
    then have le: "2 * 2 powr of_int k \<le> (2::real) powr of_int j"
      by (simp add: powr_add)
    have "rnd p x \<le> 2 ^ p / 2 powr of_int j" by (rule rnd_scaled(2) [OF x lo hi p])
    also have "\<dots> \<le> 2 ^ p / (2 * 2 powr of_int k)"
      using le by (intro divide_left_mono) simp_all
    also have "\<dots> = 2 ^ (p - 1) / 2 powr of_int k" by (simp add: pp)
    also have "\<dots> \<le> rnd p y" by (rule rnd_scaled(1) [OF y lo' hi' p])
    finally show ?thesis .
  qed
qed

lemma rnd_nonneg: "0 \<le> x \<Longrightarrow> 0 < p \<Longrightarrow> 0 \<le> rnd p x"
  using rnd_pos [of x p] by (cases "x = 0") (simp_all add: rnd_0)

lemma rnd_mono:
  assumes xy: "x \<le> y" and p: "0 < p"
  shows "rnd p x \<le> rnd p y"
proof -
  consider "0 < x" | "x \<le> 0" "0 \<le> y" | "y < 0" by linarith
  then show ?thesis
  proof cases
    case 1
    then show ?thesis using rnd_mono_pos xy p by blast
  next
    case 2
    have "0 \<le> rnd p (- x)" using 2 p by (intro rnd_nonneg) simp_all
    then have "rnd p x \<le> 0" by (simp add: rnd_minus)
    moreover have "0 \<le> rnd p y" using 2 p by (intro rnd_nonneg) simp_all
    ultimately show ?thesis by linarith
  next
    case 3
    have "rnd p (- y) \<le> rnd p (- x)"
      using 3 xy p by (intro rnd_mono_pos) simp_all
    then show ?thesis by (simp add: rnd_minus)
  qed
qed

lemma rnd_idem:
  assumes p: "0 < p"
  shows "rnd p (rnd p x) = rnd p x"
proof -
  have pos: "rnd p (rnd p x) = rnd p x" if x: "0 < x" for x
  proof -
    obtain j :: int where lo: "2 ^ (p - 1) \<le> x * 2 powr of_int j" and hi: "x * 2 powr of_int j < 2 ^ p"
      using rnd_normal [OF x p] by blast
    define k where "k = round_even (x * 2 powr of_int j)"
    have r: "rnd p x = of_int k / 2 powr of_int j"
      unfolding k_def by (rule rnd_eval [OF x lo hi p])
    have rp: "0 < rnd p x" by (rule rnd_pos [OF x p])
    have a: "2 ^ (p - 1) \<le> k"
      unfolding k_def using round_even_mono [OF lo] by (simp add: round_even_pow2)
    have b: "k \<le> 2 ^ p"
      unfolding k_def using round_even_mono [of "x * 2 powr of_int j" "2 ^ p"] hi by (simp add: round_even_pow2)
    have a': "(2::real) ^ (p - 1) \<le> of_int k"
      using a by (metis of_int_le_iff of_int_numeral of_int_power)
    have pp: "(2::real) ^ p = 2 * 2 ^ (p - 1)" using p by (cases p) simp_all
    have sc: "rnd p x * 2 powr of_int j = of_int k" by (simp add: r)
    show ?thesis
    proof (cases "k = 2 ^ p")
      case False
      then have "k < 2 ^ p" using b by simp
      then have b': "of_int k < (2::real) ^ p"
        by (metis of_int_less_iff of_int_numeral of_int_power)
      have "rnd p (rnd p x) = of_int (round_even (rnd p x * 2 powr of_int j)) / 2 powr of_int j"
        by (rule rnd_eval [OF rp _ _ p]) (simp_all only: sc a' b')
      then have "rnd p (rnd p x) = of_int k / 2 powr of_int j"
        by (simp only: sc round_even_of_int)
      then show ?thesis by (rule trans [OF _ r [symmetric]])
    next
      case True
      have k2: "real_of_int k = 2 ^ p" by (simp add: True)
      have sc': "rnd p x * 2 powr of_int (j - 1) = 2 ^ (p - 1)"
        using sc by (simp add: powr_diff k2 pp)
      have "rnd p (rnd p x) = of_int (round_even (rnd p x * 2 powr of_int (j - 1))) / 2 powr of_int (j - 1)"
        by (rule rnd_eval [OF rp _ _ p]) (simp_all only: sc', simp_all add: pp)
      also have "\<dots> = 2 ^ (p - 1) / 2 powr of_int (j - 1)"
        by (simp only: sc' round_even_pow2) simp
      also have "\<dots> = rnd p x"
        by (simp add: r k2 pp powr_diff)
      finally show ?thesis .
    qed
  qed
  consider "0 < x" | "x = 0" | "x < 0" by linarith
  then show ?thesis
  proof cases
    case 1
    then show ?thesis by (rule pos)
  next
    case 2
    then show ?thesis by (simp add: rnd_0)
  next
    case 3
    then have "rnd p (rnd p (- x)) = rnd p (- x)" by (intro pos) simp
    then show ?thesis by (simp add: rnd_minus)
  qed
qed

lemma rnd_eval_up:
  assumes "0 < x" "2 ^ (p - 1) \<le> x * 2 ^ n" "x * 2 ^ n < 2 ^ p" "0 < p"
  shows "rnd p x = of_int (round_even (x * 2 ^ n)) / 2 ^ n"
  using rnd_eval [of x p "int n"] assms by (simp add: powr_realpow)

lemma rnd_eval_down:
  assumes "0 < x" "2 ^ (p - 1) \<le> x / 2 ^ n" "x / 2 ^ n < 2 ^ p" "0 < p"
  shows "rnd p x = of_int (round_even (x / 2 ^ n)) * 2 ^ n"
  using rnd_eval [of x p "- int n"] assms by (simp add: powr_minus powr_realpow divide_inverse)

text \<open>
  A whole number below \<open>2 ^ p\<close> has \<open>p\<close> significant bits, and the conversion
  \<open>float_of_int\<close> of the first layer is the conversion of the second.
\<close>

lemma ulp_shift_range:
  "2 ^ 23 \<le> a \<Longrightarrow> 2 ^ 23 \<le> a div 2 ^ ulp_shift a \<and> a div 2 ^ ulp_shift a < 2 ^ 24"
proof (induction a rule: ulp_shift.induct)
  case (1 a)
  show ?case
  proof (cases "a < 2 ^ 24")
    case True
    then show ?thesis using "1.prems" by (simp add: ulp_shift_small)
  next
    case False
    then have h: "2 ^ 23 \<le> a div 2" by simp
    have s: "ulp_shift a = Suc (ulp_shift (a div 2))"
      using False by (subst ulp_shift.simps) simp
    have "a div 2 ^ Suc (ulp_shift (a div 2)) = a div 2 div 2 ^ ulp_shift (a div 2)"
      by (simp add: div_mult2_eq)
    then show ?thesis using "1.IH" [OF False h] by (simp only: s)
  qed
qed

lemma round_even_div:
  fixes a d :: nat
  assumes d: "0 < d"
  shows "round_even (real a / real d) =
           int (if d < 2 * (a mod d) \<or> (2 * (a mod d) = d \<and> odd (a div d)) then a div d + 1 else a div d)"
proof -
  have fl: "\<lfloor>real a / real d\<rfloor> = int (a div d)"
    by (simp add: floor_divide_of_nat_eq)
  have "real a = real (a div d) * real d + real (a mod d)"
    by (metis div_mult_mod_eq of_nat_add of_nat_mult)
  then have fr: "real a / real d - real (a div d) = real (a mod d) / real d"
    using d by (simp add: field_simps)
  have c1: "real (a mod d) / real d < 1 / 2 \<longleftrightarrow> 2 * (a mod d) < d"
    using d by (simp add: field_simps) (metis of_nat_less_iff of_nat_mult of_nat_numeral mult.commute)
  have c2: "1 / 2 < real (a mod d) / real d \<longleftrightarrow> d < 2 * (a mod d)"
    using d by (simp add: field_simps) (metis of_nat_less_iff of_nat_mult of_nat_numeral mult.commute)
  show ?thesis
    unfolding round_even_def Let_def fl
    using fr c1 c2 by (auto simp: not_less)
qed

lemma nat_less_pow_real:
  fixes a :: nat
  assumes "a < 2 ^ p"
  shows "real a + 1 \<le> 2 ^ p"
proof -
  have "Suc a \<le> 2 ^ p" using assms by simp
  then have "real (Suc a) \<le> real ((2::nat) ^ p)" by (rule of_nat_mono)
  then show ?thesis by simp
qed

lemma powr_neg_half:
  fixes j :: int
  assumes "j \<le> - 1"
  shows "(2::real) powr of_int j \<le> 1 / 2"
proof -
  have "real_of_int j \<le> - 1" using assms by linarith
  then have "(2::real) powr of_int j \<le> 2 powr (- 1)" by (intro powr_mono) simp_all
  also have "\<dots> = 1 / 2" by (simp add: powr_minus_divide)
  finally show ?thesis .
qed

lemma rnd_nat_exact:
  assumes a: "0 < a" "a < 2 ^ p" and p: "0 < p"
  shows "rnd p (real a) = real a"
proof -
  have x: "0 < real a" using a by simp
  obtain j :: int where lo: "2 ^ (p - 1) \<le> real a * 2 powr of_int j" and hi: "real a * 2 powr of_int j < 2 ^ p"
    using rnd_normal [OF x p] by blast
  have pp: "(2::real) ^ p = 2 * 2 ^ (p - 1)" using p by (cases p) simp_all
  have a1: "real a + 1 \<le> 2 ^ p" using a(2) by (rule nat_less_pow_real)
  have j0: "0 \<le> j"
  proof (rule ccontr)
    assume "\<not> 0 \<le> j"
    then have "j \<le> - 1" by simp
    then have "(2::real) powr of_int j \<le> 1 / 2" by (rule powr_neg_half)
    then have "real a * 2 powr of_int j \<le> real a * (1 / 2)"
      by (intro mult_left_mono) simp_all
    then show False using lo a1 pp by linarith
  qed
  define k where "k = nat j"
  have k: "j = int k" using j0 by (simp add: k_def)
  have pw: "(2::real) powr of_int j = 2 ^ k" unfolding k by (simp add: powr_realpow)
  have "real a * 2 ^ k = real_of_int (int (a * 2 ^ k))" by simp
  then have re: "round_even (real a * 2 ^ k) = int (a * 2 ^ k)"
    by (simp only: round_even_of_int)
  have "rnd p (real a) = of_int (round_even (real a * 2 powr of_int j)) / 2 powr of_int j"
    using x lo hi p by (rule rnd_eval)
  then have "rnd p (real a) = real_of_int (int (a * 2 ^ k)) / 2 ^ k"
    by (simp only: pw re)
  then show ?thesis by simp
qed

lemma float_of_int_rnd: "float_of_int n = of_int_f n"
proof -
  have pos: "float_of_int (int a) = rnd 24 (real a)" if a: "0 < a" for a
  proof (cases "a < 2 ^ 24")
    case True
    have "float_of_int (int a) = real_of_int (int a)"
      using True by (intro float_of_int_small) simp
    then show ?thesis using rnd_nat_exact [OF a True] by simp
  next
    case False
    define sh where "sh = ulp_shift a"
    define q where "q = a div 2 ^ sh"
    define r where "r = a mod 2 ^ sh"
    have a23: "2 ^ 23 \<le> a" using False by simp
    have qr: "2 ^ 23 \<le> q" "q < 2 ^ 24"
      using ulp_shift_range [OF a23] by (simp_all add: q_def sh_def)
    have d: "(0::nat) < 2 ^ sh" by simp
    have x: "0 < real a" using a by simp
    have quo: "real a / 2 ^ sh = real a / real ((2::nat) ^ sh)" by simp
    have aq: "a = q * 2 ^ sh + r"
      unfolding q_def r_def by (rule div_mult_mod_eq [symmetric])
    have rlt: "r < 2 ^ sh" by (simp add: r_def)
    have "real a = real (q * 2 ^ sh + r)" using aq by simp
    then have "real a = real q * 2 ^ sh + real r" by simp
    then have "real a / 2 ^ sh = (real q * 2 ^ sh) / 2 ^ sh + real r / 2 ^ sh"
      by (simp only: add_divide_distrib)
    then have val: "real a / 2 ^ sh = real q + real r / 2 ^ sh"
      by simp
    have r0: "0 \<le> real r / 2 ^ sh" by simp
    have "real r < real ((2::nat) ^ sh)" using rlt by (simp only: of_nat_less_iff)
    then have r1: "real r / 2 ^ sh < 1" by simp
    have "real ((2::nat) ^ 23) \<le> real q" using qr(1) by (simp only: of_nat_le_iff)
    then have q23: "(2::real) ^ 23 \<le> real q" by simp
    have q24: "real q + 1 \<le> (2::real) ^ 24" using qr(2) by (rule nat_less_pow_real)
    have "(2::real) ^ (24 - 1) = 2 ^ 23" by simp
    then have lo: "2 ^ (24 - 1) \<le> real a / 2 ^ sh" using val q23 r0 by linarith
    have hi: "real a / 2 ^ sh < 2 ^ 24" using val q24 r1 by linarith
    have "rnd 24 (real a) = of_int (round_even (real a / 2 ^ sh)) * 2 ^ sh"
      using x lo hi by (rule rnd_eval_down) simp
    also have "round_even (real a / 2 ^ sh) =
        int (if 2 ^ sh < 2 * r \<or> (2 * r = 2 ^ sh \<and> odd q) then q + 1 else q)"
      unfolding quo round_even_div [OF d] by (simp only: q_def r_def)
    finally have "rnd 24 (real a) =
        real (if 2 ^ sh < 2 * r \<or> (2 * r = 2 ^ sh \<and> odd q) then q + 1 else q) * 2 ^ sh"
      by simp
    moreover have "float_of_int (int a) =
        real ((if 2 ^ sh < 2 * r \<or> (2 * r = 2 ^ sh \<and> odd q) then q + 1 else q) * 2 ^ sh)"
      using a by (simp add: float_of_int_def Let_def sh_def q_def r_def)
    ultimately show ?thesis by simp
  qed
  consider "0 < n" | "n = 0" | "n < 0" by linarith
  then show ?thesis
  proof cases
    case 1
    then have "float_of_int (int (nat n)) = rnd 24 (real (nat n))" by (intro pos) simp
    then show ?thesis using 1 by (simp add: of_int_f_def)
  next
    case 2
    then show ?thesis by (simp add: of_int_f_def rnd_0 float_of_int_def)
  next
    case 3
    then have "float_of_int (int (nat (- n))) = rnd 24 (real (nat (- n)))" by (intro pos) simp
    then have "float_of_int (- n) = rnd 24 (- real_of_int n)" using 3 by simp
    moreover have "float_of_int (- n) = - float_of_int n"
      by (simp add: float_of_int_def Let_def)
    ultimately show ?thesis by (simp add: of_int_f_def rnd_minus)
  qed
qed

lemma rnd24_1: "rnd 24 1 = 1"
  by (subst rnd_eval_up [where n = 23]) (simp_all add: round_even_def)

lemma rnd24_2: "rnd 24 2 = 2"
  by (subst rnd_eval_up [where n = 22]) (simp_all add: round_even_def)

lemma rnd24_int_exact_16: "rnd 24 16 = 16"
  by (subst rnd_eval_up [where n = 19]) (simp_all add: round_even_def)

subsection \<open>The constructor in single precision\<close>

lemma lprec_pos: "0 < lprec b"
  by (simp add: lprec_def)

lemma of_int_f_mono: "a \<le> b \<Longrightarrow> of_int_f a \<le> of_int_f b"
  by (simp add: of_int_f_def rnd_mono)

lemma of_int_f_1: "of_int_f 1 = 1"
  by (simp add: of_int_f_def rnd24_1)

lemma of_int_f_pos: "0 < n \<Longrightarrow> 0 < of_int_f n"
  by (simp add: of_int_f_def rnd_pos)

lemma of_int_f_m699: "of_int_f (- 699) = - 699"
proof -
  have "rnd 24 699 = 699"
    by (subst rnd_eval_up [where n = 14]) (simp_all add: round_even_def)
  then show ?thesis using rnd_minus [of 24 699] by (simp add: of_int_f_def)
qed

lemma of_int_f_4: "of_int_f 4 = 4"
  unfolding of_int_f_def
  by (subst rnd_eval_up [where n = 21]) (simp_all add: round_even_def)

lemma of_int_f_1676: "of_int_f 1676 = 1676"
  unfolding of_int_f_def
  by (subst rnd_eval_up [where n = 13]) (simp_all add: round_even_def)

lemma of_int_f_3412: "of_int_f 3412 = 3412"
  unfolding of_int_f_def
  by (subst rnd_eval_up [where n = 12]) (simp_all add: round_even_def)

lemma of_int_f_16777217: "of_int_f 16777217 = 16777216"
  unfolding of_int_f_def
  by (subst rnd_eval_down [where n = 1]) (simp_all add: round_even_def)

lemma of_int_f_16777216: "of_int_f 16777216 = 16777216"
  unfolding of_int_f_def
  by (subst rnd_eval_down [where n = 1]) (simp_all add: round_even_def)

lemma add32_small:
  assumes "- (2 ^ 31) \<le> a + b" "a + b < 2 ^ 31"
  shows "add32 a b = a + b"
proof -
  have "signed_take_bit 31 (a + b) = a + b"
    using assms by (intro signed_take_bit_int_eq_self) auto
  moreover have "sint (word_of_int (a + b) :: 32 word) = signed_take_bit 31 (a + b)"
    by (simp only: sint_sbintrunc') simp
  ultimately show ?thesis
    unfolding add32_def by (simp only: )
qed

text \<open>
  The order and \<open>fbSize\<close>. Both \<open>2 ^ 24\<close> and \<open>2 ^ 24 + 1\<close> are converted to the float
  \<open>2 ^ 24\<close>, so the constructor derives the same \<open>fbSize\<close> for the two, whatever the
  library computes.
\<close>

lemma ln_pow2: "ln (2 ^ k) / ln 2 = real k"
  by (simp add: ln_realpow)

lemma fbSize_f_order:
  assumes "fftOrder_f b n = int k" "k < 31"
  shows "fbSize_f b n = 2 ^ k div 2"
proof -
  have "shl32 1 k = 2 ^ k" using assms(2) by (rule shl32_1)
  then show ?thesis
    using assms(1) by (simp add: fbSize_f_def signed_divide_int_def)
qed

lemma fftOrder_f_ideal_pow2:
  assumes "of_int_f n = 2 ^ k" "rnd 53 (real k) = real k"
  shows "fftOrder_f ideal_libm n = int k"
  using assms ln_pow2 [of k]
  by (simp add: fftOrder_f_def ideal_libm_def lprec_def)

lemma fbSize_f_ideal_16: "fbSize_f ideal_libm 16 = 8"
proof -
  have "ln 16 / ln (2::real) = 4" using ln_pow2 [of 4] by simp
  moreover have "rnd 53 4 = 4"
    by (subst rnd_eval_up [where n = 50]) (simp_all add: round_even_def)
  ultimately have "fftOrder_f ideal_libm 16 = 4"
    by (simp add: fftOrder_f_def ideal_libm_def lprec_def of_int_f_def rnd24_int_exact_16)
  then show ?thesis
    using shl32_1 [of 4] by (simp add: fbSize_f_def)
qed

lemma fbSize_f_ideal_16384: "fbSize_f ideal_libm 16384 = 8192"
proof -
  have "rnd 53 (real 14) = real 14"
    by (subst rnd_eval_up [where n = 49]) (simp_all add: round_even_def)
  moreover have "of_int_f 16384 = 2 ^ 14"
    unfolding of_int_f_def
    by (subst rnd_eval_up [where n = 9]) (simp_all add: round_even_def)
  ultimately have "fftOrder_f ideal_libm 16384 = int 14"
    by (intro fftOrder_f_ideal_pow2)
  from fbSize_f_order [OF this] show ?thesis by simp
qed

lemma fbSize_f_same: "fbSize_f b 16777217 = fbSize_f b 16777216"
  by (simp add: fbSize_f_def fftOrder_f_def of_int_f_16777217 of_int_f_16777216)

lemma fbSize_f_ideal_16777217: "fbSize_f ideal_libm 16777217 = 8388608"
proof -
  have "rnd 53 (real 24) = real 24"
    by (subst rnd_eval_up [where n = 48]) (simp_all add: round_even_def)
  then have "fftOrder_f ideal_libm 16777217 = int 24"
    by (intro fftOrder_f_ideal_pow2) (simp_all add: of_int_f_16777217)
  from fbSize_f_order [OF this] show ?thesis by simp
qed

lemma next_pow2_16777216: "next_pow2 16777216 = 16777216"
  using next_pow2_range [of 23 16777216] by simp

text \<open>
  What the loop stores: pass \<open>i\<close> writes \<open>center_f \<dots> i\<close> to \<open>fCenter[i]\<close>, to
  \<open>fHi[i - 1]\<close> and to \<open>fLo[i + 1]\<close>.
\<close>

lemma length_center_loop_f:
  "center_loop_f b bs d n is mc (lo, ce, hi) = (lo', ce', hi') \<Longrightarrow>
     length lo' = length lo \<and> length ce' = length ce \<and> length hi' = length hi"
proof (induction "is" arbitrary: mc lo ce hi)
  case Nil
  then show ?case by simp
next
  case (Cons i "is")
  from Cons.prems show ?case
    by (simp add: Let_def split: if_splits) (drule Cons.IH, simp)+
qed

lemma center_loop_f_upt:
  "center_loop_f b bs d n [j..<n] mc (lo, ce, hi) = (lo', ce', hi') \<Longrightarrow>
   j \<le> n \<Longrightarrow> length lo = n \<Longrightarrow> length ce = n \<Longrightarrow> length hi = n \<Longrightarrow>
   mc = running_mel d m0 j \<Longrightarrow>
     (\<forall>k<n. ce' ! k = (if j \<le> k
                        then roundf (rnd 24 (melToLin_f b (running_mel d m0 (k + 1)) / bs))
                        else ce ! k)) \<and>
     (\<forall>k<n. lo' ! k = (if j < k
                        then roundf (rnd 24 (melToLin_f b (running_mel d m0 k) / bs))
                        else lo ! k)) \<and>
     (\<forall>k<n. hi' ! k = (if j \<le> k + 1 \<and> k + 1 < n
                        then roundf (rnd 24 (melToLin_f b (running_mel d m0 (k + 2)) / bs))
                        else hi ! k))"
proof (induction "n - j" arbitrary: j mc lo ce hi)
  case 0
  then show ?case by auto
next
  case (Suc x)
  from Suc.hyps(2) have jn: "j < n" by simp
  then have u: "[j..<n] = j # [Suc j..<n]" by (simp add: upt_conv_Cons)
  define c where "c = roundf (rnd 24 (melToLin_f b (rnd 24 (mc + d)) / bs))"
  define ce1 where "ce1 = ce[j := c]"
  define hi1 where "hi1 = (if 0 < j then hi[j - 1 := c] else hi)"
  define lo1 where "lo1 = (if int j < int n - 1 then lo[j + 1 := c] else lo)"
  have mc': "rnd 24 (mc + d) = running_mel d m0 (Suc j)"
    using Suc.prems(6) by simp
  have cj: "c = roundf (rnd 24 (melToLin_f b (running_mel d m0 (Suc j)) / bs))"
    by (simp only: c_def mc')
  have step: "center_loop_f b bs d n [Suc j..<n] (rnd 24 (mc + d)) (lo1, ce1, hi1) = (lo', ce', hi')"
    using Suc.prems(1) unfolding u c_def ce1_def hi1_def lo1_def
    by (simp only: center_loop_f.simps Let_def)
  have len: "length lo1 = n" "length ce1 = n" "length hi1 = n"
    using Suc.prems by (simp_all add: lo1_def ce1_def hi1_def)
  have x: "x = n - Suc j" using Suc.hyps(2) by simp
  have sj: "Suc j \<le> n" using jn by simp
  note IH = Suc.hyps(1) [OF x step sj len mc']
  have ce: "\<forall>k<n. ce' ! k = (if j \<le> k
                        then roundf (rnd 24 (melToLin_f b (running_mel d m0 (k + 1)) / bs))
                        else ce ! k)"
  proof (intro allI impI)
    fix k assume k: "k < n"
    show "ce' ! k = (if j \<le> k
                        then roundf (rnd 24 (melToLin_f b (running_mel d m0 (k + 1)) / bs))
                        else ce ! k)"
      using IH k Suc.prems(4) cj by (cases "k = j") (auto simp: ce1_def)
  qed
  have lo: "\<forall>k<n. lo' ! k = (if j < k
                        then roundf (rnd 24 (melToLin_f b (running_mel d m0 k) / bs))
                        else lo ! k)"
  proof (intro allI impI)
    fix k assume k: "k < n"
    show "lo' ! k = (if j < k
                        then roundf (rnd 24 (melToLin_f b (running_mel d m0 k) / bs))
                        else lo ! k)"
      using IH k Suc.prems(3) cj by (cases "k = Suc j") (auto simp: lo1_def)
  qed
  have hi: "\<forall>k<n. hi' ! k = (if j \<le> k + 1 \<and> k + 1 < n
                        then roundf (rnd 24 (melToLin_f b (running_mel d m0 (k + 2)) / bs))
                        else hi ! k)"
  proof (intro allI impI)
    fix k assume k: "k < n"
    show "hi' ! k = (if j \<le> k + 1 \<and> k + 1 < n
                        then roundf (rnd 24 (melToLin_f b (running_mel d m0 (k + 2)) / bs))
                        else hi ! k)"
    proof (cases "Suc k = j")
      case True
      then show ?thesis using IH k Suc.prems(5) cj jn by (auto simp: hi1_def)
    next
      case False
      then show ?thesis using IH k Suc.prems(5) by (auto simp: hi1_def)
    qed
  qed
  from ce lo hi show ?case by blast
qed

lemma calcBounds_f_nth:
  assumes n: "0 < numBanks" and k: "k < nat numBanks"
  shows "centerBin (calcBounds_f b fbsz numBanks lc hc) k = center_f b fbsz numBanks lc hc k"
    and "loBin (calcBounds_f b fbsz numBanks lc hc) k =
           (if 0 < k then center_f b fbsz numBanks lc hc (k - 1)
            else roundf (rnd 24 (of_int_f lc / binSize_f fbsz)))"
    and "hiBin (calcBounds_f b fbsz numBanks lc hc) k =
           (if k + 1 < nat numBanks then center_f b fbsz numBanks lc hc (k + 1)
            else rnd 24 (of_int_f hc / binSize_f fbsz))"
    and "length (fst (calcBounds_f b fbsz numBanks lc hc)) = nat numBanks"
    and "length (snd (snd (calcBounds_f b fbsz numBanks lc hc))) = nat numBanks"
proof -
  define N where "N = nat numBanks"
  define d where "d = delta_f b numBanks lc hc"
  define m0 where "m0 = linToMel_f b (of_int_f lc)"
  define lo0 where "lo0 = (replicate N (0::real))[0 := roundf (rnd 24 (of_int_f lc / binSize_f fbsz))]"
  have N: "0 < N" and kN: "k < N" using n k by (simp_all add: N_def)
  obtain lo ce hi where r:
    "center_loop_f b (binSize_f fbsz) d N [0..<N] m0 (lo0, replicate N 0, replicate N 0) = (lo, ce, hi)"
    by (metis prod_cases3)
  have cb: "calcBounds_f b fbsz numBanks lc hc = (lo, ce, hi[N - 1 := rnd 24 (of_int_f hc / binSize_f fbsz)])"
    unfolding calcBounds_f_def Let_def using r unfolding d_def lo0_def m0_def N_def by simp
  have inv:
    "(\<forall>k<N. ce ! k = (if 0 \<le> k
                        then roundf (rnd 24 (melToLin_f b (running_mel d m0 (k + 1)) / binSize_f fbsz))
                        else replicate N 0 ! k)) \<and>
     (\<forall>k<N. lo ! k = (if 0 < k
                        then roundf (rnd 24 (melToLin_f b (running_mel d m0 k) / binSize_f fbsz))
                        else lo0 ! k)) \<and>
     (\<forall>k<N. hi ! k = (if 0 \<le> k + 1 \<and> k + 1 < N
                        then roundf (rnd 24 (melToLin_f b (running_mel d m0 (k + 2)) / binSize_f fbsz))
                        else replicate N 0 ! k))"
    by (rule center_loop_f_upt [OF r]) (simp_all add: lo0_def)
  have len: "length lo = N" "length hi = N" using length_center_loop_f [OF r] by (simp_all add: lo0_def)
  show "centerBin (calcBounds_f b fbsz numBanks lc hc) k = center_f b fbsz numBanks lc hc k"
    using inv kN by (simp add: cb centerBin_def center_f_def d_def m0_def)
  show "loBin (calcBounds_f b fbsz numBanks lc hc) k =
           (if 0 < k then center_f b fbsz numBanks lc hc (k - 1)
            else roundf (rnd 24 (of_int_f lc / binSize_f fbsz)))"
    using inv kN N by (simp add: cb loBin_def center_f_def d_def m0_def lo0_def)
  show "hiBin (calcBounds_f b fbsz numBanks lc hc) k =
           (if k + 1 < nat numBanks then center_f b fbsz numBanks lc hc (k + 1)
            else rnd 24 (of_int_f hc / binSize_f fbsz))"
  proof (cases "k + 1 < N")
    case True
    then show ?thesis
      using inv kN by (simp add: cb hiBin_def center_f_def d_def m0_def N_def [symmetric])
  next
    case False
    then have "k = N - 1" using kN by simp
    then show ?thesis using False len N by (simp add: cb hiBin_def N_def [symmetric])
  qed
  show "length (fst (calcBounds_f b fbsz numBanks lc hc)) = nat numBanks"
    using len by (simp add: cb N_def)
  show "length (snd (snd (calcBounds_f b fbsz numBanks lc hc))) = nat numBanks"
    using len by (simp add: cb N_def)
qed

lemma MelFb_f_Inr:
  assumes "MelFb_f b fftSize numBanks locut hicut = Inr m"
  shows "0 < fftSize" "0 < numBanks" "of_int_f hicut \<le> SAMPLE_RATE"
    "numFilterBanks m = numBanks" "fbSize m = fbSize_f b fftSize" "0 \<le> fbSize m"
    "fLo m = fst (calcBounds_f b (fbSize m) numBanks locut hicut)"
    "fHi m = snd (snd (calcBounds_f b (fbSize m) numBanks locut hicut))"
  using assms by (auto simp: MelFb_f_def calcMelFB_f_def Let_def split: if_splits)

lemma MelFb_f_built:
  assumes "0 < fftSize" "0 \<le> fbSize_f b fftSize" "0 < numBanks" "of_int_f hicut \<le> SAMPLE_RATE"
  shows "MelFb_f b fftSize numBanks locut hicut = Inr
           \<lparr>numFilterBanks = numBanks, fbSize = fbSize_f b fftSize, hiCut = hicut, loCut = locut,
            fLo = fst (calcBounds_f b (fbSize_f b fftSize) numBanks locut hicut),
            fHi = snd (snd (calcBounds_f b (fbSize_f b fftSize) numBanks locut hicut)),
            fbank = calcWeights_f (fbSize_f b fftSize) (nat numBanks)
                      (calcBounds_f b (fbSize_f b fftSize) numBanks locut hicut)\<rparr>"
  using assms by (simp add: MelFb_f_def calcMelFB_f_def Let_def)

lemma MelFb_f_16_2_4_1676:
  "MelFb_f ideal_libm 16 2 4 1676 = Inr
     \<lparr>numFilterBanks = 2, fbSize = 8, hiCut = 1676, loCut = 4,
      fLo = fst (calcBounds_f ideal_libm 8 2 4 1676),
      fHi = snd (snd (calcBounds_f ideal_libm 8 2 4 1676)),
      fbank = calcWeights_f 8 2 (calcBounds_f ideal_libm 8 2 4 1676)\<rparr>"
  using MelFb_f_built [of 16 ideal_libm 2 1676 4]
  by (simp add: fbSize_f_ideal_16 of_int_f_1676 SAMPLE_RATE_def)


text \<open>
  C8. For every \<open>fftSize > 0\<close>, \<open>fbSize\<close> is half of the smallest power of two that is
  at least \<open>fftSize\<close>. The source means to compute exactly that (\<open>calc next power of 2\<close>,
  line 41), but takes the logarithm of \<open>(float)fftSize\<close>, which has 24 significant bits.
  For \<open>fftSize = 2 ^ 24 + 1 = 16777217\<close> half of the next power of two is \<open>2 ^ 24\<close>, for
  \<open>16777216\<close> it is \<open>2 ^ 23\<close>; the constructor derives one and the same \<open>fbSize\<close> for
  both on every build, and with an exact logarithm the object built for \<open>16777217\<close>
  holds \<open>fbSize = 2 ^ 23\<close>.
\<close>

theorem C8_fbSize_failing_input:
  "fbSize_f b 16777217 = fbSize_f b 16777216 \<and>
   (case MelFb_f ideal_libm 16777217 2 4 1676 of
      Inl e \<Rightarrow> False
    | Inr m \<Rightarrow> fbSize m = 8388608) \<and>
   int (next_pow2 (nat 16777217)) div 2 = 16777216 \<and>
   int (next_pow2 (nat 16777216)) div 2 = 8388608"
proof (intro conjI)
  show "fbSize_f b 16777217 = fbSize_f b 16777216" by (rule fbSize_f_same)
  show "case MelFb_f ideal_libm 16777217 2 4 1676 of
      Inl e \<Rightarrow> False
    | Inr m \<Rightarrow> fbSize m = 8388608"
    using MelFb_f_built [of 16777217 ideal_libm 2 1676 4]
    by (simp add: fbSize_f_ideal_16777217 of_int_f_1676 SAMPLE_RATE_def)
  show "int (next_pow2 (nat 16777217)) div 2 = 16777216" by (simp add: next_pow2_16777217)
  show "int (next_pow2 (nat 16777216)) div 2 = 8388608" by (simp add: next_pow2_16777216)
qed

text \<open>
  Order. The running mel value does not decrease when \<open>delta\<close> is not negative, and the
  mappings keep the order when the logarithm and the power of the library do.
\<close>

lemma binSize_f_pos:
  assumes "1 \<le> fbsz"
  shows "0 < binSize_f fbsz"
proof -
  have "1 \<le> of_int_f fbsz" using of_int_f_mono [OF assms] by (simp add: of_int_f_1)
  then have "rnd 24 2 \<le> rnd 24 (of_int_f fbsz * 2)" by (intro rnd_mono) simp_all
  then have "rnd 24 1 \<le> rnd 24 (rnd 24 (of_int_f fbsz * 2) - 1)"
    by (intro rnd_mono) (simp_all add: rnd24_2)
  then have "0 < SAMPLE_RATE / rnd 24 (rnd 24 (of_int_f fbsz * 2) - 1)"
    by (simp add: rnd24_1 SAMPLE_RATE_def)
  then show ?thesis unfolding binSize_f_def by (intro rnd_pos) simp_all
qed

lemma running_mel_float: "rnd 24 m = m \<Longrightarrow> rnd 24 (running_mel d m k) = running_mel d m k"
  by (cases k) (simp_all add: rnd_idem)

lemma running_mel_step:
  assumes d: "0 \<le> d" and m: "rnd 24 m = m"
  shows "running_mel d m k \<le> running_mel d m (Suc k)"
proof -
  have "rnd 24 (running_mel d m k) \<le> rnd 24 (running_mel d m k + d)"
    using d by (intro rnd_mono) simp_all
  then show ?thesis by (simp add: running_mel_float [OF m])
qed

lemma running_mel_mono:
  assumes d: "0 \<le> d" and m: "rnd 24 m = m" and ij: "i \<le> j"
  shows "running_mel d m i \<le> running_mel d m j"
  using ij
proof (induction j)
  case 0
  then show ?case by simp
next
  case (Suc j)
  show ?case
  proof (cases "i = Suc j")
    case True
    then show ?thesis by simp
  next
    case False
    then have "i \<le> j" using Suc.prems by simp
    then have "running_mel d m i \<le> running_mel d m j" by (rule Suc.IH)
    also have "\<dots> \<le> running_mel d m (Suc j)" by (rule running_mel_step [OF d m])
    finally show ?thesis .
  qed
qed

text \<open>
  The running sum is not the product: from 1, two passes with \<open>delta = 2 ^ -24\<close> leave
  the value at 1, while \<open>1 + 2 * delta\<close> is the float \<open>1 + 2 ^ -23\<close>.
\<close>

lemma running_mel_drift:
  "running_mel (1 / 2 ^ 24) 1 2 = 1 \<and> rnd 24 (1 + 2 * (1 / 2 ^ 24)) = 1 + 1 / 2 ^ 23"
proof -
  have a: "rnd 24 (1 + 1 / 2 ^ 24) = 1"
    by (subst rnd_eval_up [where n = 23]) (simp_all add: round_even_def)
  have b: "rnd 24 (1 + 2 * (1 / 2 ^ 24)) = 1 + 1 / 2 ^ 23"
    by (subst rnd_eval_up [where n = 23]) (simp_all add: round_even_def)
  have "running_mel (1 / 2 ^ 24) 1 (Suc (Suc 0)) = 1"
    by (simp only: running_mel.simps a)
  then show ?thesis using b by (simp add: numeral_2_eq_2)
qed

lemma melToLin_f_mono:
  assumes pw: "\<forall>u v. u \<le> v \<longrightarrow> c_pow b 10 u \<le> c_pow b 10 v" and xy: "x \<le> y"
  shows "melToLin_f b x \<le> melToLin_f b y"
proof -
  have "rnd 24 (x / 2595) \<le> rnd 24 (y / 2595)"
    using xy by (intro rnd_mono) (simp_all add: divide_right_mono)
  then have "c_pow b 10 (rnd 24 (x / 2595)) \<le> c_pow b 10 (rnd 24 (y / 2595))"
    using pw by blast
  then have "rnd (lprec b) (c_pow b 10 (rnd 24 (x / 2595)) - 1)
           \<le> rnd (lprec b) (c_pow b 10 (rnd 24 (y / 2595)) - 1)"
    by (intro rnd_mono lprec_pos) simp
  then have h: "rnd (lprec b) (700 * rnd (lprec b) (c_pow b 10 (rnd 24 (x / 2595)) - 1))
           \<le> rnd (lprec b) (700 * rnd (lprec b) (c_pow b 10 (rnd 24 (y / 2595)) - 1))"
    by (intro rnd_mono lprec_pos) simp
  show ?thesis
    unfolding melToLin_f_def by (rule rnd_mono [OF h]) simp
qed

lemma rnd24_699: "rnd 24 (699 / 700) < 1"
  by (subst rnd_eval_up [where n = 24]) (simp_all add: round_even_def)

lemma log_arg_pos:
  assumes "- 699 \<le> x"
  shows "0 < rnd 24 (1 + rnd 24 (x / 700))"
proof -
  have "- (699 / 700) \<le> x / 700" using assms by simp
  then have "rnd 24 (- (699 / 700)) \<le> rnd 24 (x / 700)" by (intro rnd_mono) simp_all
  then have "0 < 1 + rnd 24 (x / 700)" using rnd24_699 by (simp add: rnd_minus)
  then show ?thesis by (intro rnd_pos) simp_all
qed

lemma linToMel_f_mono:
  assumes lg: "\<forall>u v. 0 < u \<and> u \<le> v \<longrightarrow> c_log b u \<le> c_log b v" and l10: "0 < c_log b 10"
    and x: "- 699 \<le> x" and xy: "x \<le> y"
  shows "linToMel_f b x \<le> linToMel_f b y"
proof -
  have "rnd 24 (x / 700) \<le> rnd 24 (y / 700)"
    using xy by (intro rnd_mono) (simp_all add: divide_right_mono)
  then have "rnd 24 (1 + rnd 24 (x / 700)) \<le> rnd 24 (1 + rnd 24 (y / 700))"
    by (intro rnd_mono) simp_all
  then have "c_log b (rnd 24 (1 + rnd 24 (x / 700))) \<le> c_log b (rnd 24 (1 + rnd 24 (y / 700)))"
    using lg log_arg_pos [OF x] by blast
  then have "c_log b (rnd 24 (1 + rnd 24 (x / 700))) / c_log b 10
           \<le> c_log b (rnd 24 (1 + rnd 24 (y / 700))) / c_log b 10"
    using l10 by (simp add: divide_right_mono)
  then have "rnd (lprec b) (c_log b (rnd 24 (1 + rnd 24 (x / 700))) / c_log b 10)
           \<le> rnd (lprec b) (c_log b (rnd 24 (1 + rnd 24 (y / 700))) / c_log b 10)"
    by (intro rnd_mono lprec_pos)
  then have h: "rnd (lprec b) (2595 * rnd (lprec b) (c_log b (rnd 24 (1 + rnd 24 (x / 700))) / c_log b 10))
           \<le> rnd (lprec b) (2595 * rnd (lprec b) (c_log b (rnd 24 (1 + rnd 24 (y / 700))) / c_log b 10))"
    by (intro rnd_mono lprec_pos) simp
  show ?thesis
    unfolding linToMel_f_def by (rule rnd_mono [OF h]) simp
qed

lemma linToMel_f_float: "rnd 24 (linToMel_f b x) = linToMel_f b x"
  by (simp add: linToMel_f_def rnd_idem)

lemma delta_f_nonneg:
  assumes lg: "\<forall>u v. 0 < u \<and> u \<le> v \<longrightarrow> c_log b u \<le> c_log b v" and l10: "0 < c_log b 10"
    and lc: "- 700 < locut" and lh: "locut \<le> hicut"
    and n: "0 < numBanks" "numBanks < 2 ^ 31 - 1"
  shows "0 \<le> delta_f b numBanks locut hicut"
proof -
  have "of_int_f (- 699) \<le> of_int_f locut" using lc by (intro of_int_f_mono) simp
  then have x: "- 699 \<le> of_int_f locut" by (simp add: of_int_f_m699)
  have "linToMel_f b (of_int_f locut) \<le> linToMel_f b (of_int_f hicut)"
    using lh by (intro linToMel_f_mono [OF lg l10 x] of_int_f_mono)
  then have "0 \<le> rnd 24 (linToMel_f b (of_int_f hicut) - linToMel_f b (of_int_f locut))"
    by (intro rnd_nonneg) simp_all
  moreover have "0 < of_int_f (add32 numBanks 1)"
    using n by (intro of_int_f_pos) (simp add: add32_small)
  ultimately show ?thesis
    unfolding delta_f_def by (intro rnd_nonneg) simp_all
qed

lemma center_f_mono:
  assumes pw: "\<forall>u v. u \<le> v \<longrightarrow> c_pow b 10 u \<le> c_pow b 10 v"
    and d: "0 \<le> delta_f b numBanks locut hicut" and bs: "0 < binSize_f fbsz" and ij: "i \<le> j"
  shows "center_f b fbsz numBanks locut hicut i \<le> center_f b fbsz numBanks locut hicut j"
proof -
  have "running_mel (delta_f b numBanks locut hicut) (linToMel_f b (of_int_f locut)) (i + 1)
      \<le> running_mel (delta_f b numBanks locut hicut) (linToMel_f b (of_int_f locut)) (j + 1)"
    using ij by (intro running_mel_mono [OF d linToMel_f_float]) simp
  then show ?thesis
    unfolding center_f_def using bs
    by (intro roundf_mono rnd_mono divide_right_mono melToLin_f_mono [OF pw]) simp_all
qed

text \<open>
  Up to \<open>fbSize = 2 ^ 23\<close> the float \<open>binSize\<close> is the float nearest to the exact
  \<open>SAMPLE_RATE / (2 * fbSize - 1)\<close>.
\<close>

lemma rnd_int_exact:
  assumes "0 < n" "n < 2 ^ 24"
  shows "rnd 24 (real_of_int n) = real_of_int n"
proof -
  have "nat n < 2 ^ 24" using assms by (simp add: nat_less_iff)
  then have "rnd 24 (real (nat n)) = real (nat n)"
    using assms(1) by (intro rnd_nat_exact) simp_all
  then show ?thesis using assms(1) by simp
qed

lemma binSize_f_nearest:
  assumes "1 \<le> fbsz" "fbsz < 2 ^ 23"
  shows "binSize_f fbsz = rnd 24 (binSize_of fbsz)"
proof -
  have a: "of_int_f fbsz = real_of_int fbsz"
    unfolding of_int_f_def using assms by (intro rnd_int_exact) simp_all
  have "rnd 24 (real_of_int (fbsz * 2)) = real_of_int (fbsz * 2)"
    using assms by (intro rnd_int_exact) simp_all
  then have b: "rnd 24 (real_of_int fbsz * 2) = real_of_int fbsz * 2" by simp
  have "rnd 24 (real_of_int (fbsz * 2 - 1)) = real_of_int (fbsz * 2 - 1)"
    using assms by (intro rnd_int_exact) simp_all
  then have c: "rnd 24 (real_of_int fbsz * 2 - 1) = real_of_int fbsz * 2 - 1" by simp
  show ?thesis
    by (simp only: binSize_f_def binSize_of_def a b c)
qed

text \<open>
  Two values that involve no call of the library. With \<open>fbSize = 8192\<close> the float
  \<open>binSize\<close> is \<open>16385000 / 2 ^ 25\<close>, the float quotient \<open>1953 / binSize\<close> is
  \<open>3999.5\<close>, and \<open>fLo[0]\<close> is 4000. With \<open>fbSize = 8\<close> the float quotient
  \<open>1676 / binSize\<close> is \<open>13180601 / 2 ^ 22\<close>, a little above \<open>3.1425\<close>.
\<close>

lemma binSize_f_8192: "binSize_f 8192 = 16385000 / 33554432"
proof -
  have a: "of_int_f 8192 = 8192"
    unfolding of_int_f_def
    by (subst rnd_eval_up [where n = 10]) (simp_all add: round_even_def)
  have b: "rnd 24 16384 = 16384"
    by (subst rnd_eval_up [where n = 9]) (simp_all add: round_even_def)
  have c: "rnd 24 16383 = 16383"
    by (subst rnd_eval_up [where n = 10]) (simp_all add: round_even_def)
  have d: "rnd 24 (8000 / 16383) = 16385000 / 33554432"
    by (subst rnd_eval_up [where n = 25]) (simp_all add: round_even_def)
  show ?thesis by (simp add: binSize_f_def a b c d SAMPLE_RATE_def)
qed

lemma loBin_f_8192_1953:
  assumes "0 < numBanks"
  shows "loBin (calcBounds_f b 8192 numBanks 1953 hc) 0 = 4000"
proof -
  have a: "of_int_f 1953 = 1953"
    unfolding of_int_f_def
    by (subst rnd_eval_up [where n = 13]) (simp_all add: round_even_def)
  have q: "rnd 24 (of_int_f 1953 / binSize_f 8192) = 7999 / 2"
    unfolding a binSize_f_8192
    by (subst rnd_eval_up [where n = 12]) (simp_all add: round_even_def)
  have r: "roundf (7999 / 2) = 4000" by (simp add: roundf_def)
  have "loBin (calcBounds_f b 8192 numBanks 1953 hc) 0 = roundf (rnd 24 (of_int_f 1953 / binSize_f 8192))"
    using calcBounds_f_nth(2) [OF assms, of 0 b 8192 1953 hc] assms by simp
  then show ?thesis by (simp only: q r)
qed



subsection \<open>The claims about the band boundaries\<close>

text \<open>
  C5, as the specification states it: for every accepted configuration every
  \<open>centerBin[i]\<close> is \<open>round (melToFrequency (frequencyToMel loCut + (i + 1) * delta) / binSizeHz)\<close>,
  \<open>loBin[0]\<close> is \<open>round (loCut / binSizeHz)\<close> with
  \<open>binSizeHz = sampleRate / (2 * fbSize - 1)\<close>, and the bands are contiguous. With
  \<open>fftSize = 16384\<close>, one band and the cutoffs 1953 Hz and 3412 Hz, \<open>fbSize\<close> is 8192 and
  \<open>loCut / binSizeHz\<close> is \<open>3999.499875\<close>, which rounds to 3999. The source computes
  \<open>binSize\<close> and the quotient in single precision, the quotient comes out as \<open>3999.5\<close>,
  and the constructor stores \<open>fLo[0] = 4000\<close>.
\<close>

theorem C5_centers_counterexample:
  "(case MelFb_f ideal_libm 16384 1 1953 3412 of
      Inl e \<Rightarrow> False
    | Inr m \<Rightarrow> fbSize m = 8192 \<and> fLo m ! 0 = 4000) \<and>
   roundf (real_of_int 1953 / binSize_of 8192) = 3999"
proof -
  have "MelFb_f ideal_libm 16384 1 1953 3412 = Inr
     \<lparr>numFilterBanks = 1, fbSize = 8192, hiCut = 3412, loCut = 1953,
      fLo = fst (calcBounds_f ideal_libm 8192 1 1953 3412),
      fHi = snd (snd (calcBounds_f ideal_libm 8192 1 1953 3412)),
      fbank = calcWeights_f 8192 (nat 1) (calcBounds_f ideal_libm 8192 1 1953 3412)\<rparr>"
    using MelFb_f_built [of 16384 ideal_libm 1 3412 1953]
    by (simp add: fbSize_f_ideal_16384 of_int_f_3412 SAMPLE_RATE_def)
  moreover have "fst (calcBounds_f ideal_libm 8192 1 1953 3412) ! 0 = 4000"
    using loBin_f_8192_1953 [of 1 ideal_libm 3412] by (simp add: loBin_def)
  moreover have "roundf (real_of_int 1953 / binSize_of 8192) = 3999"
    by (simp add: roundf_def binSize_of_def SAMPLE_RATE_def)
  ultimately show ?thesis by simp
qed

text \<open>
  C5, amended: for every accepted configuration with both cutoffs above -700 Hz, in the
  single precision arithmetic of the source, with
  \<open>delta = (linToMel hiCut - linToMel loCut) / (numBands + 1)\<close>, every \<open>centerBin[i]\<close>
  is \<open>round (melToLin m / binSize)\<close>, where \<open>m\<close> is the running mel value after
  \<open>i + 1\<close> passes of the loop, each of which adds \<open>delta\<close> and rounds the sum to a float
  (so not \<open>linToMel loCut + (i + 1) * delta\<close>); \<open>loBin[0]\<close> is the rounded float
  quotient \<open>loCut / binSize\<close>; and the bands are contiguous: \<open>hiBin[i] = centerBin[i + 1]\<close>
  and \<open>loBin[i + 1] = centerBin[i]\<close> for every adjacent pair of bands. The arrays
  \<open>fLo\<close> and \<open>fHi\<close> of the object are the ones that \<open>calcBounds_f\<close> returns.
\<close>

theorem C5_centers:
  assumes "MelFb_f b fftSize numBanks locut hicut = Inr m"
    and "- 700 < locut" and "- 700 < hicut"
    and "bd = calcBounds_f b (fbSize m) numBanks locut hicut"
    and "delta = rnd 24 (rnd 24 (linToMel_f b (of_int_f hicut) - linToMel_f b (of_int_f locut))
                         / of_int_f (add32 numBanks 1))"
  shows "fLo m = fst bd \<and> fHi m = snd (snd bd) \<and>
         (\<forall>i < nat numBanks. centerBin bd i =
            roundf (rnd 24 (melToLin_f b (running_mel delta (linToMel_f b (of_int_f locut)) (i + 1))
                            / binSize_f (fbSize m)))) \<and>
         loBin bd 0 = roundf (rnd 24 (of_int_f locut / binSize_f (fbSize m))) \<and>
         (\<forall>i. i + 1 < nat numBanks \<longrightarrow>
            hiBin bd i = centerBin bd (i + 1) \<and> loBin bd (i + 1) = centerBin bd i)"
proof -
  note f = MelFb_f_Inr [OF assms(1)]
  have d: "delta = delta_f b numBanks locut hicut"
    by (simp add: assms(5) delta_f_def)
  show ?thesis
    unfolding assms(4)
    using f(7,8) calcBounds_f_nth(1,2,3) [OF f(2), of _ b "fbSize m" locut hicut] f(2)
    by (auto simp: center_f_def d)
qed

theorem C5_centers_witness:
  "centerBin (calcBounds_f ideal_libm 8 2 4 1676) 1 =
     roundf (rnd 24 (melToLin_f ideal_libm
        (running_mel (rnd 24 (rnd 24 (linToMel_f ideal_libm 1676 - linToMel_f ideal_libm 4) / 3))
           (linToMel_f ideal_libm 4) 2) / binSize_f 8)) \<and>
   loBin (calcBounds_f ideal_libm 8 2 4 1676) 0 = roundf (rnd 24 (4 / binSize_f 8)) \<and>
   hiBin (calcBounds_f ideal_libm 8 2 4 1676) 0 = centerBin (calcBounds_f ideal_libm 8 2 4 1676) 1 \<and>
   loBin (calcBounds_f ideal_libm 8 2 4 1676) 1 = centerBin (calcBounds_f ideal_libm 8 2 4 1676) 0"
proof -
  have h: "- 700 < (4::int)" "- 700 < (1676::int)" by simp_all
  have three: "of_int_f (add32 2 1) = 3"
    unfolding of_int_f_def add32_small [of 2 1, simplified]
    by (subst rnd_eval_up [where n = 22]) (simp_all add: round_even_def)
  note t = C5_centers [OF MelFb_f_16_2_4_1676 h refl refl]
  note c = t [THEN conjunct2, THEN conjunct2, THEN conjunct1, rule_format, of 1]
  note l = t [THEN conjunct2, THEN conjunct2, THEN conjunct2, THEN conjunct1]
  note a = t [THEN conjunct2, THEN conjunct2, THEN conjunct2, THEN conjunct2, rule_format, of 0]
  show ?thesis using c l a by (simp add: of_int_f_4 of_int_f_1676 three numeral_2_eq_2)
qed



text \<open>
  C7, as the specification states it: \<open>loBin[i] < centerBin[i] < hiBin[i]\<close> for every
  band, and \<open>centerBin\<close> strictly increasing. With \<open>fftSize = 4\<close>, two bands and the
  cutoffs 1300 Hz and 1962 Hz, both centres round to bin 1: the second band has
  \<open>loBin = centerBin\<close>, its unrounded \<open>hiBin\<close> lies below its centre, and the centres
  do not increase.
\<close>

theorem C7_monotone_counterexample:
  "(case MelFb 4 2 1300 1962 of
      Inl e \<Rightarrow> False
    | Inr m \<Rightarrow>
        loBin (calcBounds (fbSize m) 2 1300 1962) 1 = centerBin (calcBounds (fbSize m) 2 1300 1962) 1 \<and>
        hiBin (calcBounds (fbSize m) 2 1300 1962) 1 < centerBin (calcBounds (fbSize m) 2 1300 1962) 1 \<and>
        centerBin (calcBounds (fbSize m) 2 1300 1962) 0 = centerBin (calcBounds (fbSize m) 2 1300 1962) 1)"
  by (simp add: MelFb_4_2_1300_1962 calcBounds_4_2_1300_1962 loBin_def centerBin_def hiBin_def)

text \<open>
  C7, amended: for every accepted configuration with \<open>fbSize \<ge> 1\<close>,
  \<open>numBands < 2 ^ 31 - 1\<close> and \<open>- 700 < loCut \<le> hiCut\<close>, on a build whose logarithm is
  positive at 10 and weakly increasing on the positive numbers and whose power
  \<open>pow (10, x)\<close> is weakly increasing in \<open>x\<close>: \<open>centerBin\<close> is weakly increasing,
  \<open>centerBin[i] \<le> hiBin[i]\<close> for every band but the last, and
  \<open>loBin[i] \<le> centerBin[i]\<close> for every band but the first. (The first band's
  \<open>loBin\<close> and the last band's \<open>hiBin\<close> are computed from the cutoffs on another path
  than the centres, and single precision does not keep them in order with the centres.)
\<close>

theorem C7_monotone:
  assumes "MelFb_f b fftSize numBanks locut hicut = Inr m"
    and "bd = calcBounds_f b (fbSize m) numBanks locut hicut"
    and "1 \<le> fbSize m" and "numBanks < 2 ^ 31 - 1"
    and "- 700 < locut" and "locut \<le> hicut"
    and "0 < c_log b 10"
    and "\<forall>u v. 0 < u \<and> u \<le> v \<longrightarrow> c_log b u \<le> c_log b v"
    and "\<forall>u v. u \<le> v \<longrightarrow> c_pow b 10 u \<le> c_pow b 10 v"
  shows "\<forall>i. i + 1 < nat numBanks \<longrightarrow>
            centerBin bd i \<le> centerBin bd (i + 1) \<and>
            centerBin bd i \<le> hiBin bd i \<and>
            loBin bd (i + 1) \<le> centerBin bd (i + 1)"
proof (intro allI impI)
  fix i assume i: "i + 1 < nat numBanks"
  note f = MelFb_f_Inr [OF assms(1)]
  have bs: "0 < binSize_f (fbSize m)" using assms(3) by (rule binSize_f_pos)
  have d: "0 \<le> delta_f b numBanks locut hicut"
    using assms(8,7,5,6) f(2) assms(4) by (rule delta_f_nonneg)
  have i0: "i < nat numBanks" using i by simp
  note nth = calcBounds_f_nth(1,2,3) [OF f(2), of _ b "fbSize m" locut hicut, folded assms(2)]
  have "center_f b (fbSize m) numBanks locut hicut i \<le> center_f b (fbSize m) numBanks locut hicut (i + 1)"
    using assms(9) d bs by (rule center_f_mono) simp
  then show "centerBin bd i \<le> centerBin bd (i + 1) \<and> centerBin bd i \<le> hiBin bd i \<and>
        loBin bd (i + 1) \<le> centerBin bd (i + 1)"
    using nth(1,3) [OF i0] nth(1,2) [OF i] i by simp
qed

theorem C7_monotone_witness:
  "centerBin (calcBounds_f ideal_libm 8 2 4 1676) 0 \<le> centerBin (calcBounds_f ideal_libm 8 2 4 1676) 1 \<and>
   centerBin (calcBounds_f ideal_libm 8 2 4 1676) 0 \<le> hiBin (calcBounds_f ideal_libm 8 2 4 1676) 0 \<and>
   loBin (calcBounds_f ideal_libm 8 2 4 1676) 1 \<le> centerBin (calcBounds_f ideal_libm 8 2 4 1676) 1"
proof -
  have h: "(1::int) \<le> fbSize \<lparr>numFilterBanks = 2, fbSize = 8, hiCut = 1676, loCut = 4,
      fLo = fst (calcBounds_f ideal_libm 8 2 4 1676),
      fHi = snd (snd (calcBounds_f ideal_libm 8 2 4 1676)),
      fbank = calcWeights_f 8 2 (calcBounds_f ideal_libm 8 2 4 1676)\<rparr>"
    "(2::int) < 2 ^ 31 - 1" "- 700 < (4::int)" "(4::int) \<le> 1676"
    by simp_all
  have l10: "0 < c_log ideal_libm 10" by (simp add: ideal_libm_def)
  have lg: "\<forall>u v. 0 < u \<and> u \<le> v \<longrightarrow> c_log ideal_libm u \<le> c_log ideal_libm v"
    by (simp add: ideal_libm_def)
  have pw: "\<forall>u v. u \<le> v \<longrightarrow> c_pow ideal_libm 10 u \<le> c_pow ideal_libm 10 v"
    by (simp add: ideal_libm_def)
  note t = C7_monotone [OF MelFb_f_16_2_4_1676 refl h l10 lg pw, rule_format, of 0]
  show ?thesis using t by simp
qed

subsection \<open>The claim about the weights\<close>

lemma fbSize_of_256: "fbSize_of 256 = 128"
  using fbSize_of_range [of 7 256] by simp

lemma calcBounds_256_2_4_1676:
  "calcBounds 128 2 4 1676 = ([0, 11], [11, 28], [28, 21369 / 400])"
proof -
  have c: "spec_center 128 2 4 1676 i = roundf ((704 * (3 / 2) ^ (i + 1) - 700) / binSize_of 128)" for i
    using spec_center_geometric [of 4 "3 / 2" 1676 2 128 i] by (simp add: power3_eq_cube)
  have c0: "spec_center 128 2 4 1676 0 = 11" and c1: "spec_center 128 2 4 1676 1 = 28"
    by (simp_all add: c binSize_of_def SAMPLE_RATE_def roundf_def power2_eq_square)
  note nth = calcBounds_nth [of 2 _ 128 4 1676]
  have lo: "fst (calcBounds 128 2 4 1676) = [0, 11]"
    using nth(2) [of 0] nth(2) [of 1] c0
    by (intro list2_eq) (simp_all add: length_calcBounds loBin_def binSize_of_def SAMPLE_RATE_def roundf_def)
  have ce: "fst (snd (calcBounds 128 2 4 1676)) = [11, 28]"
    using nth(1) [of 0] nth(1) [of 1] c0 c1
    by (intro list2_eq) (simp_all add: length_calcBounds centerBin_def)
  have hi: "snd (snd (calcBounds 128 2 4 1676)) = [28, 21369 / 400]"
    using nth(3) [of 0] nth(3) [of 1] c1
    by (intro list2_eq) (simp_all add: length_calcBounds hiBin_def binSize_of_def SAMPLE_RATE_def)
  show ?thesis using lo ce hi by (simp add: prod_eq_iff)
qed

lemma weights_closed_form:
  assumes "MelFb fftSize numBanks locut hicut = Inr m"
    and "b = calcBounds (fbSize m) (nat numBanks) locut hicut"
    and "i < nat numBanks" "k < nat (fbSize m)"
    and "loBin b i = real l" "centerBin b i = real c" "l < c" "real c \<le> hiBin b i"
  shows "fbank m ! i ! k = tri_weight l c (hiBin b i) k"
proof -
  note f = MelFb_Inr [OF assms(1)]
  have "fbank m ! i = tri_loop (loBin b i) (centerBin b i) (hiBin b i) [0..<nat (fbSize m)] 0"
    using assms(3) by (simp add: f(9) assms(2) calcWeights_def)
  then show ?thesis
    using tri_loop_closed_form [OF assms(7) _ assms(4), of "hiBin b i"] assms(5,6,8) by simp
qed

text \<open>
  C1 says that the weight row of a band is the triangle that is 0 at \<open>loBin\<close>, 1 at
  \<open>centerBin\<close> and 0 at \<open>hiBin\<close>. The loop stores \<open>x\<close> before it steps it, so the
  stored row is that triangle moved up by one bin (\<open>weights_closed_form\<close>). For
  \<open>fftSize = 256\<close>, two bands, \<open>loCut = 4\<close> and \<open>hiCut = 1676\<close>, the first band has
  \<open>loBin = 0\<close>, \<open>centerBin = 11\<close>, \<open>hiBin = 28\<close>: the weight at bin 11 is \<open>10/11\<close>,
  the weight 1 is at bin 12, and the weight at bin 28 is \<open>1/17\<close>.
\<close>

theorem C1_weights_failing_input:
  "(case MelFb 256 2 4 1676 of
      Inl e \<Rightarrow> False
    | Inr m \<Rightarrow>
        fLo m ! 0 = 0 \<and> centerBin (calcBounds (fbSize m) 2 4 1676) 0 = 11 \<and> fHi m ! 0 = 28 \<and>
        fbank m ! 0 ! 11 = 10 / 11 \<and> fbank m ! 0 ! 12 = 1 \<and> fbank m ! 0 ! 28 = 1 / 17)"
proof -
  obtain m where m: "MelFb 256 2 4 1676 = Inr m"
    using MelFb_built [of 256 2 1676 4] by (simp add: SAMPLE_RATE_def)
  note f = MelFb_Inr [OF m]
  have fb: "fbSize m = 128" using f(5) by (simp add: fbSize_of_256)
  note w = weights_closed_form [OF m refl, of 0 _ 0 11, unfolded fb]
  have b: "loBin (calcBounds 128 2 4 1676) 0 = 0" "centerBin (calcBounds 128 2 4 1676) 0 = 11"
    "hiBin (calcBounds 128 2 4 1676) 0 = 28"
    by (simp_all add: calcBounds_256_2_4_1676 loBin_def centerBin_def hiBin_def)
  have "fbank m ! 0 ! 11 = 10 / 11" "fbank m ! 0 ! 12 = 1" "fbank m ! 0 ! 28 = 1 / 17"
    using w [of 11] w [of 12] w [of 28] by (simp_all add: b tri_weight_def)
  moreover have "fLo m ! 0 = 0" "fHi m ! 0 = 28"
    using f(7,8) by (simp_all add: fb calcBounds_256_2_4_1676)
  ultimately show ?thesis by (simp add: m fb b)
qed

subsection \<open>The claims about applyMelFB\<close>

text \<open>
  The last band need not be the widest: here the scratch buffers get
  \<open>maxFilterSize = 0\<close> cells, and the first band copies \<open>filterSize = 1\<close> value.
\<close>

lemma band_wider_than_last:
  "(case MelFb 4 2 1300 1962 of
      Inl e \<Rightarrow> False
    | Inr m \<Rightarrow> sparse_size m 0 = 1 \<and> sparse_size m (nat (numFilterBanks m - 1)) = 0)"
  by (simp add: MelFb_4_2_1300_1962 sparse_size_def)

text \<open>
  The dense product against the sparse value, in general: for a band of a constructed
  filter bank with integer bounds \<open>l < c < h\<close> and \<open>h\<close> inside the row, the sparse
  window ends below bin \<open>h\<close>, where the row still holds \<open>1 / (h - c)\<close>, so the dense
  product exceeds the stored value by \<open>frame[h] / (h - c)\<close>.
\<close>

lemma sum_list_map2_nth:
  "sum_list (map2 (*) xs ys) = (\<Sum>i<min (length xs) (length ys). xs ! i * ys ! (i::nat) :: real)"
proof -
  have "sum_list (map2 (*) xs ys) = (\<Sum>i<length (zip xs ys). map2 (*) xs ys ! i)"
    by (metis length_map sum_list_sum_nth atLeast0LessThan)
  then show ?thesis by simp
qed

lemma tri_weight_zero: "k \<le> l \<or> real h < real k \<Longrightarrow> l < c \<Longrightarrow> c < h \<Longrightarrow> tri_weight l c (real h) k = 0"
  by (auto simp: tri_weight_def)

lemma tri_weight_at_hi: "l < c \<Longrightarrow> c < h \<Longrightarrow> tri_weight l c (real h) h = 1 / real (h - c)"
proof -
  assume lc: "l < c" and ch: "c < h"
  have "real (h - c - 1) = real (h - c) - 1" using ch by (simp add: of_nat_diff)
  moreover have "real (h - c) \<noteq> 0" using ch by simp
  ultimately have "1 - real (h - c - 1) / (real h - real c) = 1 / real (h - c)"
    using ch by (simp add: of_nat_diff field_simps)
  then show ?thesis using lc ch by (simp add: tri_weight_def)
qed

lemma dense_minus_sparse:
  assumes built: "MelFb fftSize numBanks locut hicut = Inr m"
    and b: "b = calcBounds (fbSize m) (nat numBanks) locut hicut"
    and i: "i < nat numBanks"
    and lo: "loBin b i = real l" and ce: "centerBin b i = real c" and hi: "hiBin b i = real h"
    and lc: "l < c" and ch: "c < h" and hN: "h < nat (fbSize m)"
    and w: "window < length (spectrogramm stft)"
    and frame: "frame = spectrogramm stft ! window" "nat (fbSize m) \<le> length frame"
  shows "\<exists>S. sparse_value m stft window i = Some S \<and>
             dense_band m frame i = S + frame ! h / real (h - c)"
proof -
  note f = MelFb_Inr [OF built]
  define N where "N = nat (fbSize m)"
  define W where "W = tri_weight l c (real h)"
  have row: "fbank m ! i = map W [0..<N]"
  proof -
    have "fbank m ! i = tri_loop (loBin b i) (centerBin b i) (hiBin b i) [0..<N] 0"
      using i by (simp add: f(9) b calcWeights_def N_def)
    also have "\<dots> = map W [0..<N]"
      unfolding lo ce hi W_def using lc ch by (intro tri_loop_upt) (simp_all add: tri_acc_def)
    finally show ?thesis .
  qed
  have flo: "fLo m ! i = real l" using lo by (simp add: f(7) b loBin_def)
  have fhi: "fHi m ! i = real h" using hi by (simp add: f(8) b hiBin_def)
  have lh: "l < h" using lc ch by simp
  have size: "sparse_size m i = int (h - l)" using lh by (simp add: sparse_size_def flo fhi)
  have slo: "sparse_lo m i = int l" by (simp add: sparse_lo_def flo)
  define S where "S = sum_list (map2 (*) (take (h - l) (drop l frame)) (take (h - l) (drop l (fbank m ! i))))"
  have nsz: "nat (sparse_size m i) = h - l" and nlo: "nat (sparse_lo m i) = l"
    and pos: "\<not> sparse_size m i \<le> 0"
    using lh by (simp_all add: size slo)
  have sv: "sparse_value m stft window i = Some S"
    unfolding sparse_value_def nsz nlo S_def frame(1) using pos by simp
  have lenf: "N \<le> length frame" using frame(2) by (simp add: N_def)
  have hN': "h < N" using hN by (simp add: N_def)
  have S_sum: "S = (\<Sum>k = l..<h. frame ! k * W k)"
  proof -
    have "S = (\<Sum>j<h - l. frame ! (l + j) * W (l + j))"
      unfolding S_def row using lenf hN' lh
      by (simp add: sum_list_map2_nth min_def)
    also have "\<dots> = (\<Sum>j = 0..<h - l. frame ! (j + l) * W (j + l))"
      by (simp add: atLeast0LessThan add.commute)
    also have "\<dots> = (\<Sum>k = 0 + l..<(h - l) + l. frame ! k * W k)"
      by (rule sum.shift_bounds_nat_ivl [symmetric])
    also have "\<dots> = (\<Sum>k = l..<h. frame ! k * W k)"
      using lh by simp
    finally show ?thesis .
  qed
  have "dense_band m frame i = (\<Sum>k<N. frame ! k * W k)"
    unfolding dense_band_def row using lenf
    by (simp add: sum_list_map2_nth N_def [symmetric] min_def)
  also have "\<dots> = (\<Sum>k \<in> {l..h}. frame ! k * W k)"
  proof (rule sum.mono_neutral_right)
    show "finite {..<N}" by simp
    show "{l..h} \<subseteq> {..<N}" using hN' by auto
    show "\<forall>k \<in> {..<N} - {l..h}. frame ! k * W k = 0"
      using lc ch by (auto simp: W_def tri_weight_zero)
  qed
  also have "\<dots> = (\<Sum>k = l..<h. frame ! k * W k) + frame ! h * W h"
  proof -
    have "{l..h} = insert h {l..<h}" using lh by auto
    then show ?thesis by simp
  qed
  also have "W h = 1 / real (h - c)"
    unfolding W_def using lc ch by (rule tri_weight_at_hi)
  finally have "dense_band m frame i = S + frame ! h / real (h - c)"
    by (simp add: S_sum)
  then show ?thesis using sv by blast
qed

text \<open>
  C2 says that the support window of every band stays inside the \<open>fbSize\<close> bins. The
  constructor accepts \<open>hiCut\<close> up to the sample rate, and the bins end at half of it. For
  \<open>fftSize = 16\<close>, one band, \<open>loCut = 0\<close> and \<open>hiCut = 5600\<close>: \<open>fbSize = 8\<close>, but
  \<open>ceil hiBin = 11\<close>, and \<open>applyMelFB\<close> copies 11 values out of a frame and a weight row
  of 8.
\<close>

theorem C2_bounds_failing_input:
  "(case MelFb 16 1 0 5600 of
      Inl e \<Rightarrow> False
    | Inr m \<Rightarrow>
        fbSize m = 8 \<and> \<lceil>fHi m ! 0\<rceil> = 11 \<and> length (fbank m ! 0) = 8 \<and>
        applyMelFB m (\<lambda>i. 7) [[5]]
          \<lparr>NoOfWindows = 1, spectrogramm = [[1, 1, 1, 1, 1, 1, 1, 1]]\<rparr> = Inl OutOfBounds)"
  by (simp add: MelFb_16_1_0_5600 apply_16_1_0_5600)

text \<open>
  C4 says that the sparse value equals the dense dot product. For \<open>fftSize = 16\<close>, two
  bands, \<open>loCut = 4\<close>, \<open>hiCut = 1676\<close> and a frame of eight ones, the first band has
  the window of bins 0 and 1, while its row holds its weight 1 at bin 2 = \<open>hiBin\<close>:
  \<open>applyMelFB\<close> stores 0 for it, and the dense product is 1.
\<close>

theorem C4_dense_sparse_failing_input:
  "(case MelFb 16 2 4 1676 of
      Inl e \<Rightarrow> False
    | Inr m \<Rightarrow>
        applyMelFB m (\<lambda>i. 7) [[5, 5]]
          \<lparr>NoOfWindows = 1, spectrogramm = [[1, 1, 1, 1, 1, 1, 1, 1]]\<rparr> = Inr [[0, 1]] \<and>
        dense_band m [1, 1, 1, 1, 1, 1, 1, 1] 0 = 1 \<and>
        dense_band m [1, 1, 1, 1, 1, 1, 1, 1] 1 = 1)"
  by (simp add: MelFb_16_2_4_1676 apply_16_2_4_1676 dense_band_def)

text \<open>
  C10. \<open>applyMelFB\<close> is a function of the filter bank, the spectrogram and the output
  buffer: the contents of the fresh scratch storage (\<open>heap\<close>) do not reach the result, and
  a second call on the buffer that a first call has filled leaves every value as it is.
  The source assigns no member of the object, so the model has no new object state to
  return.
\<close>

theorem C10_apply_pure:
  "applyMelFB m heap output stft = applyMelFB m heap' output stft \<and>
   (applyMelFB m heap output stft = Inr out1 \<longrightarrow> applyMelFB m heap' out1 stft = Inr out1)"
  using out_windows_idem [of m stft "sparse_size m (nat (numFilterBanks m - 1))"
      "[0..<nat (NoOfWindows stft)]" "output" out1]
  by (simp add: applyMelFB_out_windows split: if_splits)

theorem C10_apply_pure_witness:
  "applyMelFB
     \<lparr>numFilterBanks = 2, fbSize = 8, hiCut = 1676, loCut = 4,
      fLo = [0, 1], fHi = [2, 1257 / 400],
      fbank = [[0, 0, 1, 0, 0, 0, 0, 0], [0, 0, 0, 1, 0, 0, 0, 0]]\<rparr>
     (\<lambda>i. 7) [[5, 5]]
     \<lparr>NoOfWindows = 1, spectrogramm = [[1, 1, 1, 1, 1, 1, 1, 1]]\<rparr> = Inr [[0, 1]] \<and>
   applyMelFB
     \<lparr>numFilterBanks = 2, fbSize = 8, hiCut = 1676, loCut = 4,
      fLo = [0, 1], fHi = [2, 1257 / 400],
      fbank = [[0, 0, 1, 0, 0, 0, 0, 0], [0, 0, 0, 1, 0, 0, 0, 0]]\<rparr>
     (\<lambda>i. 3) [[0, 1]]
     \<lparr>NoOfWindows = 1, spectrogramm = [[1, 1, 1, 1, 1, 1, 1, 1]]\<rparr> = Inr [[0, 1]]"
  using C10_apply_pure [of
     "\<lparr>numFilterBanks = 2, fbSize = 8, hiCut = 1676, loCut = 4,
      fLo = [0, 1], fHi = [2, 1257 / 400],
      fbank = [[0, 0, 1, 0, 0, 0, 0, 0], [0, 0, 0, 1, 0, 0, 0, 0]]\<rparr>"
     "\<lambda>i. 7" "[[5, 5]]"
     "\<lparr>NoOfWindows = 1, spectrogramm = [[1, 1, 1, 1, 1, 1, 1, 1]]\<rparr>"
     "\<lambda>i. 3" "[[0, 1]]"]
    apply_16_2_4_1676
  by simp

end
